theory Spec2Isabelle
  imports Complex_Main
begin

section \<open>JavaScript numbers\<close>

text \<open>
  The search routes compute with JavaScript numbers. A number is modelled as a real, or as
  one of the three values that are not finite: \<open>NaN\<close> and the two infinities. Rounding
  and the sign of zero are not modelled. The scores of the ranking engine are finite, so
  they are reals; \<open>jsnum\<close> is used where the code can meet a value that is not finite:
  a converted query parameter, a missing price in a comparator, the page count.
\<close>

datatype jsnum = NaN | NegInf | PosInf | Num real

fun js_neg :: "jsnum \<Rightarrow> jsnum" where
  "js_neg NaN = NaN"
| "js_neg NegInf = PosInf"
| "js_neg PosInf = NegInf"
| "js_neg (Num x) = Num (- x)"

fun js_add :: "jsnum \<Rightarrow> jsnum \<Rightarrow> jsnum" where
  "js_add (Num x) (Num y) = Num (x + y)"
| "js_add NaN _ = NaN"
| "js_add _ NaN = NaN"
| "js_add PosInf NegInf = NaN"
| "js_add NegInf PosInf = NaN"
| "js_add PosInf _ = PosInf"
| "js_add _ PosInf = PosInf"
| "js_add NegInf _ = NegInf"
| "js_add _ NegInf = NegInf"

definition js_sub :: "jsnum \<Rightarrow> jsnum \<Rightarrow> jsnum" where
  "js_sub a b = js_add a (js_neg b)"

text \<open>The product of an infinity and a finite number: its sign, and \<open>NaN\<close> at zero.\<close>

definition inf_times :: "jsnum \<Rightarrow> real \<Rightarrow> jsnum" where
  "inf_times i x = (if x = 0 then NaN else if 0 < x then i else js_neg i)"

fun js_mul :: "jsnum \<Rightarrow> jsnum \<Rightarrow> jsnum" where
  "js_mul (Num x) (Num y) = Num (x * y)"
| "js_mul NaN _ = NaN"
| "js_mul _ NaN = NaN"
| "js_mul (Num x) i = inf_times i x"
| "js_mul i (Num y) = inf_times i y"
| "js_mul PosInf i = i"
| "js_mul NegInf i = js_neg i"

fun js_div :: "jsnum \<Rightarrow> jsnum \<Rightarrow> jsnum" where
  "js_div (Num x) (Num y) =
     (if y = 0 then (if x = 0 then NaN else if 0 < x then PosInf else NegInf)
      else Num (x / y))"
| "js_div NaN _ = NaN"
| "js_div _ NaN = NaN"
| "js_div (Num x) _ = Num 0"
| "js_div i (Num y) = (if 0 \<le> y then i else js_neg i)"
| "js_div _ _ = NaN"

text \<open>The comparisons \<open><\<close> and \<open><=\<close>: false as soon as one side is \<open>NaN\<close>.\<close>

fun js_lt :: "jsnum \<Rightarrow> jsnum \<Rightarrow> bool" where
  "js_lt (Num x) (Num y) = (x < y)"
| "js_lt NaN _ = False"
| "js_lt _ NaN = False"
| "js_lt NegInf NegInf = False"
| "js_lt NegInf _ = True"
| "js_lt PosInf _ = False"
| "js_lt (Num x) NegInf = False"
| "js_lt (Num x) PosInf = True"

fun js_le :: "jsnum \<Rightarrow> jsnum \<Rightarrow> bool" where
  "js_le NaN _ = False"
| "js_le _ NaN = False"
| "js_le a b = (a = b \<or> js_lt a b)"

definition js_gt :: "jsnum \<Rightarrow> jsnum \<Rightarrow> bool" where
  "js_gt a b = js_lt b a"

definition js_ge :: "jsnum \<Rightarrow> jsnum \<Rightarrow> bool" where
  "js_ge a b = js_le b a"

fun Math_min :: "jsnum \<Rightarrow> jsnum \<Rightarrow> jsnum" where
  "Math_min NaN _ = NaN"
| "Math_min _ NaN = NaN"
| "Math_min a b = (if js_lt b a then b else a)"

fun Math_max :: "jsnum \<Rightarrow> jsnum \<Rightarrow> jsnum" where
  "Math_max NaN _ = NaN"
| "Math_max _ NaN = NaN"
| "Math_max a b = (if js_lt a b then b else a)"

fun Math_ceil :: "jsnum \<Rightarrow> jsnum" where
  "Math_ceil (Num x) = Num (of_int \<lceil>x\<rceil>)"
| "Math_ceil a = a"

section \<open>Records, observations and candidates\<close>

text \<open>
  A document of the \<open>pricehistories\<close> collection (models/PriceHistory.js), with the two
  fields the search routes read. The time stamp is in milliseconds.
\<close>

record observation =
  price :: real
  timestamp :: int

text \<open>
  A document of the \<open>flights\<close> collection (models/Flight.js) after the \<open>$lookup\<close>
  stage of the search pipelines, which stores the price history of the flight in the
  array \<open>prices\<close>, in the order in which the store returns it. The fields \<open>route.from\<close>,
  \<open>route.to\<close> and \<open>class\<close> are \<open>route_from\<close>, \<open>route_to\<close> and \<open>flight_class\<close>; the
  optional \<open>aircraft\<close> is \<open>None\<close> when the document has none.
\<close>

record flight =
  airline :: string
  route_from :: string
  route_to :: string
  aircraft :: "string option"
  flight_class :: string
  flightDate :: int
  prices :: "observation list"

text \<open>The \<open>$addFields\<close> stage of \<open>/hybrid\<close> adds five fields; a field that the
  aggregation leaves missing or null is \<open>None\<close>.\<close>

record candidate = flight +
  latestPrice :: "real option"
  priceCount :: nat
  avgPrice :: "real option"
  minPrice :: "real option"
  maxPrice :: "real option"

text \<open>\<open>{ $arrayElemAt: [arr, -1] }\<close>: the last element of the array, missing when the
  array is empty.\<close>

definition arrayElemAt_last :: "'a list \<Rightarrow> 'a option" where
  "arrayElemAt_last arr = (if arr = [] then None else Some (last arr))"

text \<open>\<open>$avg\<close>, \<open>$min\<close> and \<open>$max\<close> of an array of numbers: null on the empty array.\<close>

definition agg_avg :: "real list \<Rightarrow> real option" where
  "agg_avg arr = (if arr = [] then None else Some (sum_list arr / real (length arr)))"

definition agg_min :: "real list \<Rightarrow> real option" where
  "agg_min arr = (if arr = [] then None else Some (fold min (tl arr) (hd arr)))"

definition agg_max :: "real list \<Rightarrow> real option" where
  "agg_max arr = (if arr = [] then None else Some (fold max (tl arr) (hd arr)))"

definition addFields :: "flight \<Rightarrow> candidate" where
  "addFields d =
     \<lparr> airline = airline d, route_from = route_from d, route_to = route_to d,
       aircraft = aircraft d, flight_class = flight_class d, flightDate = flightDate d,
       prices = prices d,
       latestPrice = arrayElemAt_last (map price (prices d)),
       priceCount = length (prices d),
       avgPrice = agg_avg (map price (prices d)),
       minPrice = agg_min (map price (prices d)),
       maxPrice = agg_max (map price (prices d)) \<rparr>"

section \<open>Text of a candidate and of the query\<close>

text \<open>
  A string is a list of 8-bit characters. \<open>toLowerCase\<close> changes the letters \<open>A\<close> to
  \<open>Z\<close>; every other character that JavaScript would change lies outside the ASCII range
  before and after the change.
\<close>

definition toLowerCase_char :: "char \<Rightarrow> char" where
  "toLowerCase_char c =
     (case map_of (zip ''ABCDEFGHIJKLMNOPQRSTUVWXYZ'' ''abcdefghijklmnopqrstuvwxyz'') c of
        None \<Rightarrow> c
      | Some l \<Rightarrow> l)"

definition toLowerCase :: "string \<Rightarrow> string" where
  "toLowerCase s = map toLowerCase_char s"

text \<open>\<open>parts.join(' ')\<close>\<close>

fun join_space :: "string list \<Rightarrow> string" where
  "join_space [] = []"
| "join_space [s] = s"
| "join_space (s # t # ts) = s @ CHR '' '' # join_space (t # ts)"

text \<open>A query parameter is \<open>None\<close> when the request does not have it. As a condition
  it holds when it is a string that is not empty.\<close>

definition truthy :: "string option \<Rightarrow> bool" where
  "truthy p = (case p of None \<Rightarrow> False | Some s \<Rightarrow> s \<noteq> [])"

text \<open>\<open>p || ''\<close>\<close>

definition or_empty :: "string option \<Rightarrow> string" where
  "or_empty p = (case p of None \<Rightarrow> [] | Some s \<Rightarrow> s)"

definition textOf :: "'a flight_scheme \<Rightarrow> string" where
  "textOf d =
     toLowerCase (join_space [airline d, route_from d, route_to d, or_empty (aircraft d),
       flight_class d])"

text \<open>The query text
  \<open>(query || [from, to, airline].filter(Boolean).join(' ')).toLowerCase()\<close>.\<close>

definition query_text :: "string option \<Rightarrow> string option \<Rightarrow> string option \<Rightarrow> string option \<Rightarrow> string" where
  "query_text qry frm to' arl =
     toLowerCase (if truthy qry then or_empty qry
                  else join_space (map or_empty (filter truthy [frm, to', arl])))"

subsection \<open>Tokenization\<close>

text \<open>The class \<open>\s\<close> within the 8-bit characters: tab, line feed, vertical tab, form
  feed, carriage return, space and the no-break space.\<close>

definition is_space :: "char \<Rightarrow> bool" where
  "is_space c = (c \<in> set [CHR 0x09, CHR 0x0A, CHR 0x0B, CHR 0x0C, CHR 0x0D, CHR 0x20, CHR 0xA0])"

text \<open>The class \<open>[a-z0-9\s-]\<close>.\<close>

definition in_class :: "char \<Rightarrow> bool" where
  "in_class c = (c \<in> set ''abcdefghijklmnopqrstuvwxyz0123456789-'' \<or> is_space c)"

text \<open>\<open>s.replace(/[^a-z0-9\s-]/g, ' ')\<close>\<close>

definition replace_outside :: "string \<Rightarrow> string" where
  "replace_outside s = map (\<lambda>c. if in_class c then c else CHR '' '') s"

text \<open>
  \<open>s.split(/\s+/)\<close>: the pieces of \<open>s\<close> between the maximal runs of white space. A run
  at the start or at the end of \<open>s\<close> gives an empty piece, and the empty string gives one
  empty piece.
\<close>

function split_ws :: "string \<Rightarrow> string list" where
  "split_ws [] = [[]]"
| "split_ws (c # cs) =
     (if is_space c then [] # split_ws (dropWhile is_space cs)
      else (case split_ws cs of [] \<Rightarrow> [[c]] | w # ws \<Rightarrow> (c # w) # ws))"
  by pat_completeness auto
termination
  by (relation "measure length") (auto simp: le_imp_less_Suc length_dropWhile_le)

text \<open>\<open>tokenize = (s) => (s || '').replace(...).split(/\s+/).filter(Boolean)\<close>\<close>

definition tokenize :: "string \<Rightarrow> string list" where
  "tokenize s = filter (\<lambda>w. w \<noteq> []) (split_ws (replace_outside s))"

section \<open>Term statistics\<close>

text \<open>\<open>m.get(t) || 0\<close> on a map of counts.\<close>

definition get0 :: "(string \<rightharpoonup> nat) \<Rightarrow> string \<Rightarrow> nat" where
  "get0 m t = (case m t of None \<Rightarrow> 0 | Some n \<Rightarrow> n)"

text \<open>
  The map \<open>vocab\<close> sends a term to the number of terms seen before it. It is modelled by
  the list of its keys in the order of insertion, the index of a term being its position.
  \<open>if (!vocab.has(t)) vocab.set(t, vocab.size)\<close>:
\<close>

definition vocab_add :: "string \<Rightarrow> string list \<Rightarrow> string list" where
  "vocab_add t vocab = (if t \<in> set vocab then vocab else vocab @ [t])"

text \<open>The body of the inner loop over the tokens of one document, on the state
  \<open>(seen, vocab, df)\<close>.\<close>

fun scan_token ::
  "string \<Rightarrow> string set \<times> string list \<times> (string \<rightharpoonup> nat) \<Rightarrow>
     string set \<times> string list \<times> (string \<rightharpoonup> nat)" where
  "scan_token t (seen, vocab, df) =
     (if t \<in> seen then (seen, vocab_add t vocab, df)
      else (insert t seen, vocab_add t vocab, df(t \<mapsto> get0 df t + 1)))"

text \<open>The body of the outer loop: \<open>seen\<close> starts empty for every document.\<close>

definition scan_doc ::
  "string list \<Rightarrow> string list \<times> (string \<rightharpoonup> nat) \<Rightarrow> string list \<times> (string \<rightharpoonup> nat)" where
  "scan_doc tokens st = snd (fold scan_token tokens ({}, fst st, snd st))"

definition scan_docs :: "string list list \<Rightarrow> string list \<times> (string \<rightharpoonup> nat)" where
  "scan_docs docTokens = fold scan_doc docTokens ([], Map.empty)"

definition df_map :: "string list list \<Rightarrow> (string \<rightharpoonup> nat)" where
  "df_map docTokens = snd (scan_docs docTokens)"

text \<open>The keys of \<open>vocab\<close> after the loop over the query tokens.\<close>

definition vocab_keys :: "string list list \<Rightarrow> string list \<Rightarrow> string list" where
  "vocab_keys docTokens qTokens = fold vocab_add qTokens (fst (scan_docs docTokens))"

text \<open>\<open>N = docTokens.length || 1\<close>\<close>

definition corpus_N :: "string list list \<Rightarrow> nat" where
  "corpus_N docTokens = (if length docTokens = 0 then 1 else length docTokens)"

text \<open>\<open>avgdl = docTokens.reduce((s, t) => s + t.length, 0) / N\<close>\<close>

definition avgdl :: "string list list \<Rightarrow> real" where
  "avgdl docTokens =
     real (fold (\<lambda>t s. s + length t) docTokens 0) / real (corpus_N docTokens)"

definition idf :: "string list list \<Rightarrow> string \<Rightarrow> real" where
  "idf docTokens t =
     ln (1 + (real (corpus_N docTokens) - real (get0 (df_map docTokens) t) + 0.5)
              / (real (get0 (df_map docTokens) t) + 0.5))"

definition k1 :: real where
  "k1 = 1.5"

definition bm25_b :: real where
  "bm25_b = 0.75"

text \<open>The term frequencies of one token list:
  \<open>tokens.forEach(t => tf.set(t, (tf.get(t) || 0) + 1))\<close>.\<close>

definition tf_map :: "string list \<Rightarrow> (string \<rightharpoonup> nat)" where
  "tf_map tokens = fold (\<lambda>t tf. tf(t \<mapsto> get0 tf t + 1)) tokens Map.empty"

section \<open>BM25\<close>

text \<open>The score of one document: the loop over the query tokens adds a term for every
  query token that the document has, and skips the others.\<close>

definition bm25_doc :: "string list list \<Rightarrow> string list \<Rightarrow> string list \<Rightarrow> real" where
  "bm25_doc docTokens qTokens tokens =
     (let tf = tf_map tokens;
          dl = (if length tokens = 0 then 1 else length tokens)
      in fold (\<lambda>t score.
                 let f = get0 tf t
                 in if f = 0 then score
                    else score + idf docTokens t *
                           ((real f * (k1 + 1))
                            / (real f + k1 * (1 - bm25_b + bm25_b * (real dl / avgdl docTokens)))))
              qTokens 0)"

definition bm25 :: "string list list \<Rightarrow> string list \<Rightarrow> real list" where
  "bm25 docTokens qTokens = map (bm25_doc docTokens qTokens) docTokens"

section \<open>TF-IDF vectors and cosine similarity\<close>

text \<open>\<open>terms = Array.from(new Set([...qTokens, ...vocab.keys()]))\<close>: the elements in the
  order of their first occurrence.\<close>

definition terms :: "string list list \<Rightarrow> string list \<Rightarrow> string list" where
  "terms docTokens qTokens = fold vocab_add (qTokens @ vocab_keys docTokens qTokens) []"

definition idfTf :: "string list list \<Rightarrow> string list \<Rightarrow> (string \<rightharpoonup> real)" where
  "idfTf docTokens qTokens =
     map_of (map (\<lambda>t. (t, ln ((real (corpus_N docTokens) + 1)
                                / (real (get0 (df_map docTokens) t) + 1)) + 1))
                 (terms docTokens qTokens))"

text \<open>\<open>idfTf.get(t) || 0\<close>\<close>

definition idfTf_get :: "(string \<rightharpoonup> real) \<Rightarrow> string \<Rightarrow> real" where
  "idfTf_get m t = (case m t of None \<Rightarrow> 0 | Some v \<Rightarrow> v)"

definition vec :: "string list list \<Rightarrow> string list \<Rightarrow> string list \<Rightarrow> real list" where
  "vec docTokens qTokens tokens =
     (let tf = tf_map tokens
      in map (\<lambda>t. real (get0 tf t) * idfTf_get (idfTf docTokens qTokens) t)
             (terms docTokens qTokens))"

text \<open>\<open>dot = (a,b) => a.reduce((s,v,i) => s + v*(b[i]||0), 0)\<close>: the accumulator \<open>s\<close>
  runs over \<open>a\<close>, and \<open>b\<close> gives 0 where it has no element.\<close>

fun dot_from :: "real \<Rightarrow> real list \<Rightarrow> real list \<Rightarrow> real" where
  "dot_from s [] b = s"
| "dot_from s (v # a) b =
     dot_from (s + v * (case b of [] \<Rightarrow> 0 | w # _ \<Rightarrow> w)) a (case b of [] \<Rightarrow> [] | _ # b' \<Rightarrow> b')"

definition dot :: "real list \<Rightarrow> real list \<Rightarrow> real" where
  "dot a b = dot_from 0 a b"

text \<open>The literal \<open>1e-12\<close>.\<close>

definition e12 :: real where
  "e12 = 1 / 10 ^ 12"

text \<open>\<open>norm = (a) => Math.sqrt(dot(a,a)) || 1e-12\<close>\<close>

definition norm_vec :: "real list \<Rightarrow> real" where
  "norm_vec a = (if sqrt (dot a a) = 0 then e12 else sqrt (dot a a))"

definition cos_scores :: "string list list \<Rightarrow> string list \<Rightarrow> real list" where
  "cos_scores docTokens qTokens =
     (let qv = vec docTokens qTokens qTokens
      in map (\<lambda>toks. let dv = vec docTokens qTokens toks
                      in dot qv dv / (norm_vec qv * norm_vec dv))
             docTokens)"

section \<open>Normalization and fusion\<close>

text \<open>
  \<open>Math.min(...arr)\<close> and \<open>Math.max(...arr)\<close> pass every element of the array as an
  argument of one call. The engine accepts a bounded number of arguments in a call and
  throws a \<open>RangeError\<close> on more. The bound belongs to the engine and not to the
  repository (Node with its default stack takes about 125000 arguments), so it is a
  parameter of the model, \<open>maxArgs\<close>. On no argument the results are the infinities.
\<close>

datatype js_exception = RangeError

definition Math_min_list :: "nat \<Rightarrow> real list \<Rightarrow> js_exception + jsnum" where
  "Math_min_list maxArgs arr =
     (if maxArgs < length arr then Inl RangeError
      else Inr (fold (\<lambda>x m. Math_min m (Num x)) arr PosInf))"

definition Math_max_list :: "nat \<Rightarrow> real list \<Rightarrow> js_exception + jsnum" where
  "Math_max_list maxArgs arr =
     (if maxArgs < length arr then Inl RangeError
      else Inr (fold (\<lambda>x m. Math_max m (Num x)) arr NegInf))"

text \<open>
  The function \<open>normalize\<close> of the route, with the arithmetic of JavaScript: a quotient
  by zero would show as \<open>NaN\<close> or as an infinity in the result, and an exception of
  \<open>Math.min\<close> or \<open>Math.max\<close> leaves the function.
\<close>

definition normalize_arr :: "nat \<Rightarrow> real list \<Rightarrow> js_exception + jsnum list" where
  "normalize_arr maxArgs arr =
     (if length arr = 0 then Inr (map Num arr)
      else case Math_min_list maxArgs arr of
             Inl e \<Rightarrow> Inl e
           | Inr mn \<Rightarrow>
               (case Math_max_list maxArgs arr of
                  Inl e \<Rightarrow> Inl e
                | Inr mx \<Rightarrow>
                    Inr (if js_lt (js_sub mx mn) (Num e12) then map (\<lambda>x. Num 0) arr
                         else map (\<lambda>x. js_div (js_sub (Num x) mn) (js_sub mx mn)) arr)))"

text \<open>\<open>alphaNum = Math.max(0, Math.min(1, Number(alpha)))\<close>, on the number that the
  parameter converts to.\<close>

definition clamp_alpha :: "jsnum \<Rightarrow> jsnum" where
  "clamp_alpha a = Math_max (Num 0) (Math_min (Num 1) a)"

text \<open>\<open>hybrid = bm25N.map((b,i) => alphaNum*b + (1-alphaNum)*cosN[i])\<close>: one element,
  and the array.\<close>

definition fuse :: "jsnum \<Rightarrow> jsnum \<Rightarrow> jsnum \<Rightarrow> jsnum" where
  "fuse a b c = js_add (js_mul a b) (js_mul (js_sub (Num 1) a) c)"

definition hybrid :: "jsnum \<Rightarrow> jsnum list \<Rightarrow> jsnum list \<Rightarrow> jsnum list" where
  "hybrid a bN cN = map2 (fuse a) bN cN"

section \<open>The route \<open>/hybrid\<close>\<close>

text \<open>
  The query parameters of a request. A text parameter is \<open>None\<close> when the request does
  not have it. A numeric parameter is given by the number that the route converts it to:
  \<open>parseFloat\<close> for the two price bounds, which are \<open>None\<close> when the parameter is
  missing or empty (the route tests them as conditions before it converts them);
  \<open>parseInt\<close> for \<open>limit\<close> and \<open>page\<close> and \<open>Number\<close> for \<open>alpha\<close>, which are
  \<open>None\<close> when the parameter is missing and its default applies. The two dates only
  enter the filter that the store evaluates.
\<close>

record request =
  p_query :: "string option"
  p_from :: "string option"
  p_to :: "string option"
  p_airline :: "string option"
  p_minPrice :: "jsnum option"
  p_maxPrice :: "jsnum option"
  p_sortBy :: "string option"
  p_limit :: "jsnum option"
  p_page :: "jsnum option"
  p_alpha :: "jsnum option"

subsection \<open>Price range\<close>

text \<open>
  The \<open>$match\<close> stage on \<open>latestPrice\<close>. \<open>$gte\<close> and \<open>$lte\<close> with a number select the
  documents whose field is a number in that relation to it; a document without the field
  is not selected.
\<close>

definition match_gte :: "real option \<Rightarrow> jsnum \<Rightarrow> bool" where
  "match_gte field bound = (case field of None \<Rightarrow> False | Some p \<Rightarrow> js_ge (Num p) bound)"

definition match_lte :: "real option \<Rightarrow> jsnum \<Rightarrow> bool" where
  "match_lte field bound = (case field of None \<Rightarrow> False | Some p \<Rightarrow> js_le (Num p) bound)"

definition priceFilter :: "jsnum option \<Rightarrow> jsnum option \<Rightarrow> candidate \<Rightarrow> bool" where
  "priceFilter minP maxP d =
     ((case minP of None \<Rightarrow> True | Some lo \<Rightarrow> match_gte (latestPrice d) lo) \<and>
      (case maxP of None \<Rightarrow> True | Some hi \<Rightarrow> match_lte (latestPrice d) hi))"

text \<open>The pipeline after \<open>$lookup\<close>: \<open>$addFields\<close>, then the price \<open>$match\<close> when one of
  the bounds is given.\<close>

definition candidates :: "request \<Rightarrow> flight list \<Rightarrow> candidate list" where
  "candidates req joined =
     (if p_minPrice req \<noteq> None \<or> p_maxPrice req \<noteq> None
      then filter (priceFilter (p_minPrice req) (p_maxPrice req)) (map addFields joined)
      else map addFields joined)"

text \<open>\<open>x ?? y\<close> on a price that may be missing.\<close>

definition price_or :: "real option \<Rightarrow> jsnum \<Rightarrow> jsnum" where
  "price_or p y = (case p of None \<Rightarrow> y | Some x \<Rightarrow> Num x)"

text \<open>The filter in memory:
  \<open>(d.latestPrice ?? Infinity) >= minP && (d.latestPrice ?? -Infinity) <= maxP\<close>.\<close>

definition in_price_range :: "jsnum option \<Rightarrow> jsnum option \<Rightarrow> candidate \<Rightarrow> bool" where
  "in_price_range minPrice' maxPrice' d =
     (let minP = (case minPrice' of None \<Rightarrow> NegInf | Some v \<Rightarrow> v);
          maxP = (case maxPrice' of None \<Rightarrow> PosInf | Some v \<Rightarrow> v)
      in js_ge (price_or (latestPrice d) PosInf) minP \<and>
         js_le (price_or (latestPrice d) NegInf) maxP)"

definition filtered :: "request \<Rightarrow> flight list \<Rightarrow> candidate list" where
  "filtered req joined =
     (if p_minPrice req \<noteq> None \<or> p_maxPrice req \<noteq> None
      then filter (in_price_range (p_minPrice req) (p_maxPrice req)) (candidates req joined)
      else candidates req joined)"

subsection \<open>Scores\<close>

definition alphaNum :: "request \<Rightarrow> jsnum" where
  "alphaNum req = clamp_alpha (case p_alpha req of None \<Rightarrow> Num 0.5 | Some a \<Rightarrow> a)"

definition docTokens :: "candidate list \<Rightarrow> string list list" where
  "docTokens ds = map tokenize (map textOf ds)"

definition qTokens :: "request \<Rightarrow> string list" where
  "qTokens req = tokenize (query_text (p_query req) (p_from req) (p_to req) (p_airline req))"

definition bm25N :: "nat \<Rightarrow> request \<Rightarrow> candidate list \<Rightarrow> js_exception + jsnum list" where
  "bm25N maxArgs req ds = normalize_arr maxArgs (bm25 (docTokens ds) (qTokens req))"

definition cosN :: "nat \<Rightarrow> request \<Rightarrow> candidate list \<Rightarrow> js_exception + jsnum list" where
  "cosN maxArgs req ds = normalize_arr maxArgs (cos_scores (docTokens ds) (qTokens req))"

text \<open>A candidate with its \<open>_scores\<close>: \<open>bm25\<close>, \<open>cosine\<close>, \<open>hybrid\<close> and \<open>alpha\<close>.\<close>

record scored = candidate +
  score_bm25 :: jsnum
  score_cosine :: jsnum
  score_hybrid :: jsnum
  score_alpha :: jsnum

text \<open>\<open>withScores\<close>, from the weight, the candidates and the two normalized arrays.\<close>

definition withScores :: "jsnum \<Rightarrow> candidate list \<Rightarrow> jsnum list \<Rightarrow> jsnum list \<Rightarrow> scored list" where
  "withScores a ds bN cN =
     map (\<lambda>(d, b, c, h).
            candidate.extend d
              \<lparr> score_bm25 = b, score_cosine = c, score_hybrid = h, score_alpha = a \<rparr>)
         (zip ds (zip bN (zip cN (hybrid a bN cN))))"

subsection \<open>Sorting\<close>

text \<open>
  \<open>Array.prototype.sort\<close> is stable: it puts \<open>x\<close> behind \<open>y\<close> when the comparator is
  positive at \<open>(x, y)\<close>, and keeps the order of two elements at which it is zero or
  \<open>NaN\<close>. On a comparator that orders the elements consistently this fixes the result,
  and insertion from the right computes it.
\<close>

fun insert_cmp :: "('a \<Rightarrow> 'a \<Rightarrow> jsnum) \<Rightarrow> 'a \<Rightarrow> 'a list \<Rightarrow> 'a list" where
  "insert_cmp cmp x [] = [x]"
| "insert_cmp cmp x (y # ys) =
     (if js_gt (cmp x y) (Num 0) then y # insert_cmp cmp x ys else x # y # ys)"

definition js_sort :: "('a \<Rightarrow> 'a \<Rightarrow> jsnum) \<Rightarrow> 'a list \<Rightarrow> 'a list" where
  "js_sort cmp xs = foldr (insert_cmp cmp) xs []"

definition cmp_price_asc :: "scored \<Rightarrow> scored \<Rightarrow> jsnum" where
  "cmp_price_asc a b = js_sub (price_or (latestPrice a) PosInf) (price_or (latestPrice b) PosInf)"

definition cmp_price_desc :: "scored \<Rightarrow> scored \<Rightarrow> jsnum" where
  "cmp_price_desc a b = js_sub (price_or (latestPrice b) NegInf) (price_or (latestPrice a) NegInf)"

definition cmp_date_asc :: "scored \<Rightarrow> scored \<Rightarrow> jsnum" where
  "cmp_date_asc a b = Num (real_of_int (flightDate a - flightDate b))"

definition cmp_date_desc :: "scored \<Rightarrow> scored \<Rightarrow> jsnum" where
  "cmp_date_desc a b = Num (real_of_int (flightDate b - flightDate a))"

definition cmp_relevance :: "scored \<Rightarrow> scored \<Rightarrow> jsnum" where
  "cmp_relevance a b = js_sub (score_hybrid b) (score_hybrid a)"

text \<open>The \<open>switch\<close> on \<open>sortBy\<close>, whose default is \<open>relevance\<close>.\<close>

definition comparator :: "string option \<Rightarrow> scored \<Rightarrow> scored \<Rightarrow> jsnum" where
  "comparator sortBy =
     (let s = (case sortBy of None \<Rightarrow> ''relevance'' | Some v \<Rightarrow> v)
      in if s = ''price_asc'' then cmp_price_asc
         else if s = ''price_desc'' then cmp_price_desc
         else if s = ''date_asc'' then cmp_date_asc
         else if s = ''date_desc'' then cmp_date_desc
         else cmp_relevance)"

text \<open>
  Scoring and sorting of the filtered candidates: the two calls of \<open>normalize\<close>, in the
  order of the route, then \<open>withScores\<close> and the sort. An exception of \<open>normalize\<close>
  ends it.
\<close>

definition sorted_by :: "nat \<Rightarrow> request \<Rightarrow> candidate list \<Rightarrow> js_exception + scored list" where
  "sorted_by maxArgs req ds =
     (case bm25N maxArgs req ds of
        Inl e \<Rightarrow> Inl e
      | Inr bN \<Rightarrow>
          (case cosN maxArgs req ds of
             Inl e \<Rightarrow> Inl e
           | Inr cN \<Rightarrow>
               Inr (js_sort (comparator (p_sortBy req)) (withScores (alphaNum req) ds bN cN))))"

subsection \<open>Pagination and response\<close>

text \<open>
  An index of \<open>slice\<close> in an array of \<open>len\<close> elements: \<open>NaN\<close> is 0, a fraction is cut
  off, a negative index counts from the end, and the result lies between 0 and \<open>len\<close>.
\<close>

definition slice_index :: "nat \<Rightarrow> jsnum \<Rightarrow> nat" where
  "slice_index len k =
     (case k of
        NaN \<Rightarrow> 0
      | NegInf \<Rightarrow> 0
      | PosInf \<Rightarrow> len
      | Num x \<Rightarrow>
          (let i = (if 0 \<le> x then \<lfloor>x\<rfloor> else \<lceil>x\<rceil>)
           in if i < 0 then nat (max (int len + i) 0) else min (nat i) len))"

definition js_slice :: "'a list \<Rightarrow> jsnum \<Rightarrow> jsnum \<Rightarrow> 'a list" where
  "js_slice xs start end' =
     (let k = slice_index (length xs) start; final = slice_index (length xs) end'
      in take (final - k) (drop k xs))"

record response =
  data :: "scored list"
  currentPage :: jsnum
  totalPages :: jsnum
  totalResults :: nat
  hasNext :: bool
  hasPrev :: bool
  filters_alpha :: jsnum

definition respond :: "request \<Rightarrow> scored list \<Rightarrow> response" where
  "respond req sorted' =
     (let lim = (case p_limit req of None \<Rightarrow> Num 20 | Some l \<Rightarrow> l);
          total = length sorted';
          totalPages' = Math_ceil (js_div (Num (real total)) lim);
          pageNum = (case p_page req of None \<Rightarrow> Num 1 | Some p \<Rightarrow> p);
          paged = js_slice sorted' (js_mul (js_sub pageNum (Num 1)) lim) (js_mul pageNum lim)
      in \<lparr> data = paged, currentPage = pageNum, totalPages = totalPages',
           totalResults = total, hasNext = js_lt pageNum totalPages',
           hasPrev = js_gt pageNum (Num 1), filters_alpha = alphaNum req \<rparr>)"

text \<open>
  The \<open>catch\<close> of the route answers with status 500 and the message of the exception,
  whether building the filter, the aggregation or the scoring in memory has thrown.
\<close>

datatype error = ServerError string

definition message :: "js_exception \<Rightarrow> string" where
  "message e = (case e of RangeError \<Rightarrow> ''Maximum call stack size exceeded'')"

text \<open>
  The handler. Its first argument is the bound of the engine on the arguments of a call.
  Its last argument is the outcome of building the record filter and of the stages
  \<open>$match\<close> (on that filter) and \<open>$lookup\<close> in the store: the message of the exception,
  or the joined documents.
\<close>

definition hybrid_search :: "nat \<Rightarrow> request \<Rightarrow> string + flight list \<Rightarrow> error + response" where
  "hybrid_search maxArgs req store =
     (case store of
        Inl msg \<Rightarrow> Inl (ServerError msg)
      | Inr joined \<Rightarrow>
          (case sorted_by maxArgs req (filtered req joined) of
             Inl e \<Rightarrow> Inl (ServerError (message e))
           | Inr sorted' \<Rightarrow> Inr (respond req sorted')))"

section \<open>Notions of the specification and example inputs\<close>

text \<open>The range of an array of scores.\<close>

definition spread :: "real list \<Rightarrow> real" where
  "spread arr = Max (set arr) - Min (set arr)"

text \<open>The array that \<open>normalize\<close> returns when it returns: 0 everywhere when the range
  is below \<open>1e-12\<close>, and else the distance from the minimum as a part of the range.\<close>

definition normalized :: "real list \<Rightarrow> jsnum list" where
  "normalized arr =
     map (\<lambda>x. Num (if spread arr < e12 then 0 else (x - Min (set arr)) / spread arr)) arr"

text \<open>The normalized arrays, the fused scores and the scored candidates of a request, as
  the route has them when \<open>normalize\<close> returns.\<close>

definition bm25_norm :: "request \<Rightarrow> candidate list \<Rightarrow> jsnum list" where
  "bm25_norm req ds = normalized (bm25 (docTokens ds) (qTokens req))"

definition cos_norm :: "request \<Rightarrow> candidate list \<Rightarrow> jsnum list" where
  "cos_norm req ds = normalized (cos_scores (docTokens ds) (qTokens req))"

definition hybrid_list :: "request \<Rightarrow> candidate list \<Rightarrow> jsnum list" where
  "hybrid_list req ds = hybrid (alphaNum req) (bm25_norm req ds) (cos_norm req ds)"

definition scored_list :: "request \<Rightarrow> candidate list \<Rightarrow> scored list" where
  "scored_list req ds = withScores (alphaNum req) ds (bm25_norm req ds) (cos_norm req ds)"

text \<open>The value of a score that is a number.\<close>

definition num_of :: "jsnum \<Rightarrow> real" where
  "num_of v = (case v of Num r \<Rightarrow> r | _ \<Rightarrow> 0)"

text \<open>
  The latest value as the specification defines it: the value of the observation with
  the greatest capture time stamp (the first of them in the array when several have it),
  and none on an empty history.
\<close>

definition latest_by_timestamp :: "observation list \<Rightarrow> real option" where
  "latest_by_timestamp obs =
     (case obs of
        [] \<Rightarrow> None
      | x # xs \<Rightarrow> Some (price (fold (\<lambda>y m. if timestamp m < timestamp y then y else m) xs x)))"

text \<open>A flight whose price history the store returns with the newer observation
  first: 450 was captured on 2 January 2026, 520 on 1 January 2026.\<close>

definition flight_unordered :: flight where
  "flight_unordered =
     \<lparr> airline = ''Emirates'', route_from = ''DXB'', route_to = ''LHR'', aircraft = None,
       flight_class = ''Economy'', flightDate = 1772323200000,
       prices = [\<lparr> price = 450, timestamp = 1767312000000 \<rparr>,
                 \<lparr> price = 520, timestamp = 1767225600000 \<rparr>] \<rparr>"

text \<open>The example of the specification: the documents A and B and the query.\<close>

definition example_docs :: "string list list" where
  "example_docs = map tokenize [''emirates dxb lhr'', ''singapore sin bkk'']"

definition example_query :: "string list" where
  "example_query = tokenize ''emirates lhr''"

text \<open>
  The Tokenizer in the words of the specification: lowercase, replace every character
  outside the class by a space, split on runs of white space, drop empty tokens. The last
  two steps are written as one: the maximal runs of characters that are not white space.
\<close>

function spec_words :: "string \<Rightarrow> string list" where
  "spec_words s =
     (case dropWhile is_space s of
        [] \<Rightarrow> []
      | c # cs \<Rightarrow>
          (c # takeWhile (\<lambda>x. \<not> is_space x) cs) # spec_words (dropWhile (\<lambda>x. \<not> is_space x) cs))"
  by pat_completeness auto
termination
proof (relation "measure length")
  show "wf (measure length)" by simp
next
  fix s :: string and c cs
  assume a: "dropWhile is_space s = c # cs"
  have "length (dropWhile (\<lambda>x. \<not> is_space x) cs) \<le> length cs"
    by (rule length_dropWhile_le)
  also have "length cs < length (dropWhile is_space s)"
    by (simp add: a)
  also have "\<dots> \<le> length s"
    by (rule length_dropWhile_le)
  finally show "(dropWhile (\<lambda>x. \<not> is_space x) cs, s) \<in> measure length"
    by simp
qed

definition spec_tokenizer :: "string \<Rightarrow> string list" where
  "spec_tokenizer s =
     spec_words (map (\<lambda>c. if in_class c then c else CHR '' '') (map toLowerCase_char s))"

text \<open>A flight without observations, and a request that gives only \<open>minPrice=100\<close>.\<close>

definition flight_unpriced :: flight where
  "flight_unpriced =
     \<lparr> airline = ''Qatar Airways'', route_from = ''LHE'', route_to = ''BKK'', aircraft = None,
       flight_class = ''Economy'', flightDate = 1772323200000, prices = [] \<rparr>"

definition request_min_price :: request where
  "request_min_price =
     \<lparr> p_query = None, p_from = None, p_to = None, p_airline = None,
       p_minPrice = Some (Num 100), p_maxPrice = None, p_sortBy = None, p_limit = None,
       p_page = None, p_alpha = None \<rparr>"

text \<open>A request for page 3 with two items a page, and three flights.\<close>

definition request_page3 :: request where
  "request_page3 =
     \<lparr> p_query = None, p_from = None, p_to = None, p_airline = None,
       p_minPrice = None, p_maxPrice = None, p_sortBy = None, p_limit = Some (Num 2),
       p_page = Some (Num 3), p_alpha = None \<rparr>"

definition three_flights :: "flight list" where
  "three_flights = [flight_unordered, flight_unpriced, flight_unordered]"

text \<open>A request without parameters, the same request with a value of \<open>alpha\<close>, a
  second flight with one observation, and the two flights as the store returns them.\<close>

definition request_plain :: request where
  "request_plain =
     \<lparr> p_query = None, p_from = None, p_to = None, p_airline = None,
       p_minPrice = None, p_maxPrice = None, p_sortBy = None, p_limit = None,
       p_page = None, p_alpha = None \<rparr>"

definition request_alpha :: "jsnum \<Rightarrow> request" where
  "request_alpha a = request_plain \<lparr> p_alpha := Some a \<rparr>"

definition flight_cheaper :: flight where
  "flight_cheaper =
     \<lparr> airline = ''Thai Airways'', route_from = ''LHE'', route_to = ''BKK'', aircraft = None,
       flight_class = ''Economy'', flightDate = 1772409600000,
       prices = [\<lparr> price = 450, timestamp = 1767225600000 \<rparr>] \<rparr>"

definition two_flights :: "flight list" where
  "two_flights = [flight_unordered, flight_cheaper]"

text \<open>The query \<open>emirates\<close> with the weight 1, and the two flights with the Emirates
  flight last.\<close>

definition request_emirates :: request where
  "request_emirates = request_plain \<lparr> p_query := Some ''emirates'', p_alpha := Some (Num 1) \<rparr>"

definition reversed_flights :: "flight list" where
  "reversed_flights = [flight_cheaper, flight_unordered]"

section \<open>Normalization\<close>

lemma fold_Math_min_Num: "fold (\<lambda>x m. Math_min m (Num x)) arr (Num a) = Num (fold min arr a)"
  by (induction arr arbitrary: a) (auto simp: min_def)

lemma fold_Math_max_Num: "fold (\<lambda>x m. Math_max m (Num x)) arr (Num a) = Num (fold max arr a)"
  by (induction arr arbitrary: a) (auto simp: max_def)

lemma Math_min_list_Num:
  assumes "arr \<noteq> []" and "length arr \<le> maxArgs"
  shows "Math_min_list maxArgs arr = Inr (Num (Min (set arr)))"
proof (cases arr)
  case Nil
  with assms(1) show ?thesis by simp
next
  case (Cons x xs)
  have "Math_min_list maxArgs arr = Inr (fold (\<lambda>x m. Math_min m (Num x)) xs (Num x))"
    using assms(2) by (simp add: Math_min_list_def Cons)
  also have "fold (\<lambda>x m. Math_min m (Num x)) xs (Num x) = Num (fold min xs x)"
    by (rule fold_Math_min_Num)
  also have "fold min xs x = Min (set arr)" using Min.set_eq_fold [of x xs] by (simp add: Cons)
  finally show ?thesis .
qed

lemma Math_max_list_Num:
  assumes "arr \<noteq> []" and "length arr \<le> maxArgs"
  shows "Math_max_list maxArgs arr = Inr (Num (Max (set arr)))"
proof (cases arr)
  case Nil
  with assms(1) show ?thesis by simp
next
  case (Cons x xs)
  have "Math_max_list maxArgs arr = Inr (fold (\<lambda>x m. Math_max m (Num x)) xs (Num x))"
    using assms(2) by (simp add: Math_max_list_def Cons)
  also have "fold (\<lambda>x m. Math_max m (Num x)) xs (Num x) = Num (fold max xs x)"
    by (rule fold_Math_max_Num)
  also have "fold max xs x = Max (set arr)" using Max.set_eq_fold [of x xs] by (simp add: Cons)
  finally show ?thesis .
qed

lemma e12_pos: "0 < e12"
  by (simp add: e12_def)

text \<open>Within the bound of the engine \<open>normalize\<close> returns, and no quotient is by zero.\<close>

lemma normalize_arr_Inr:
  assumes "length arr \<le> maxArgs"
  shows "normalize_arr maxArgs arr = Inr (normalized arr)"
proof (cases "arr = []")
  case True
  then show ?thesis by (simp add: normalize_arr_def normalized_def)
next
  case False
  define mn where "mn = Min (set arr)"
  define mx where "mx = Max (set arr)"
  have mnl: "Math_min_list maxArgs arr = Inr (Num mn)"
    and mxl: "Math_max_list maxArgs arr = Inr (Num mx)"
    using False assms by (simp_all add: mn_def mx_def Math_min_list_Num Math_max_list_Num)
  have sp: "spread arr = mx - mn" by (simp add: spread_def mn_def mx_def)
  have "normalize_arr maxArgs arr =
      Inr (if mx - mn < e12 then map (\<lambda>x. Num 0) arr
           else map (\<lambda>x. Num ((x - mn) / (mx - mn))) arr)"
    using False e12_pos by (auto simp: normalize_arr_def mnl mxl js_sub_def)
  then show ?thesis by (simp add: normalized_def sp mn_def)
qed

text \<open>Beyond the bound it throws.\<close>

lemma normalize_arr_Inl:
  assumes "maxArgs < length arr"
  shows "normalize_arr maxArgs arr = Inl RangeError"
  using assms by (auto simp: normalize_arr_def Math_min_list_def)

lemma normalize_arr_InrD:
  assumes "normalize_arr maxArgs arr = Inr ys"
  shows "ys = normalized arr" and "length arr \<le> maxArgs"
proof -
  show le: "length arr \<le> maxArgs"
  proof (rule ccontr)
    assume "\<not> length arr \<le> maxArgs"
    then have "normalize_arr maxArgs arr = Inl RangeError"
      by (simp add: normalize_arr_Inl)
    with assms show False by simp
  qed
  from normalize_arr_Inr [OF le] assms show "ys = normalized arr" by simp
qed

lemma normalize_length: "length (normalized arr) = length arr"
  by (simp add: normalized_def)

lemma normalize_range:
  assumes "y \<in> set (normalized arr)"
  shows "\<exists>r. y = Num r \<and> 0 \<le> r \<and> r \<le> 1"
proof -
  from assms obtain x where x: "x \<in> set arr"
    and y: "y = Num (if spread arr < e12 then 0 else (x - Min (set arr)) / spread arr)"
    by (auto simp: normalized_def)
  have lo: "Min (set arr) \<le> x" and hi: "x \<le> Max (set arr)" using x by simp_all
  show ?thesis
  proof (cases "spread arr < e12")
    case True
    with y show ?thesis by simp
  next
    case False
    then have pos: "0 < spread arr" using e12_pos by simp
    have "0 \<le> (x - Min (set arr)) / spread arr" using lo pos by simp
    moreover have "(x - Min (set arr)) / spread arr \<le> 1"
      using hi pos by (simp add: spread_def)
    ultimately show ?thesis using y False by simp
  qed
qed

lemma normalize_all_equal:
  assumes "\<forall>x\<in>set arr. \<forall>y\<in>set arr. x = y"
  shows "normalized arr = map (\<lambda>x. Num 0) arr"
proof (cases "arr = []")
  case True
  then show ?thesis by (simp add: normalized_def)
next
  case False
  then have "Max (set arr) \<in> set arr" "Min (set arr) \<in> set arr" by simp_all
  with assms have "spread arr = 0" by (simp add: spread_def)
  then show ?thesis using e12_pos by (simp add: normalized_def)
qed

text \<open>
  Claim C8 says that min-max normalization is total. It is not: \<open>normalize\<close> passes the
  whole array as the arguments of \<open>Math.min\<close>, so with an engine that takes 125000
  arguments an array of 150000 equal scores makes it throw.
\<close>

theorem normalize_throws_on_long_array:
  "normalize_arr 125000 (replicate 150000 0) = Inl RangeError"
  by (rule normalize_arr_Inl) simp

text \<open>
  Claim C8, amended. Min-max normalization of a score array that is not longer than the
  bound of the engine on the arguments of a call returns and is free of \<open>NaN\<close>: the
  result has one score for every raw score, every normalized score is a finite number
  between 0 and 1 (no quotient by a zero range is taken), and when all raw scores are
  equal, the empty array and an array of one score included, every normalized score
  is 0.
\<close>

theorem normalize_nan_free_within_limit:
  assumes "length arr \<le> maxArgs"
  shows "\<exists>ys. normalize_arr maxArgs arr = Inr ys \<and> length ys = length arr \<and>
           (\<forall>y\<in>set ys. \<exists>r. y = Num r \<and> 0 \<le> r \<and> r \<le> 1) \<and>
           ((\<forall>x\<in>set arr. \<forall>y\<in>set arr. x = y) \<longrightarrow> (\<forall>y\<in>set ys. y = Num 0)) \<and>
           (arr = [] \<longrightarrow> ys = []) \<and> (\<forall>x. arr = [x] \<longrightarrow> ys = [Num 0])"
proof -
  have "\<forall>y\<in>set (normalized arr). y = Num 0" if "\<forall>x\<in>set arr. \<forall>y\<in>set arr. x = y"
    using normalize_all_equal [OF that] by simp
  moreover have "normalized arr = [Num 0]" if "arr = [x]" for x
    using normalize_all_equal [of "[x]"] that by simp
  moreover have "normalized arr = []" if "arr = []"
    using that by (simp add: normalized_def)
  ultimately show ?thesis
    using normalize_arr_Inr [OF assms] normalize_length normalize_range by blast
qed

theorem normalize_nan_free_within_limit_witness:
  "normalize_arr 125000 [3, 3] = Inr [Num 0, Num 0] \<and>
   normalize_arr 125000 [] = Inr [] \<and> normalize_arr 125000 [7] = Inr [Num 0]"
proof -
  have eq: "\<forall>x\<in>set [3, 3 :: real]. \<forall>y\<in>set [3, 3 :: real]. x = y"
    by simp
  from normalize_nan_free_within_limit [of "[3, 3]" 125000] eq
  obtain ys where ys: "normalize_arr 125000 [3, 3] = Inr ys" "length ys = 2"
    and zero: "\<forall>y\<in>set ys. y = Num 0"
    by auto
  from ys(2) obtain a b where ab: "ys = [a, b]"
    by (auto simp: length_Suc_conv numeral_2_eq_2)
  with zero have "a = Num 0" "b = Num 0"
    by simp_all
  with ab ys(1) show ?thesis
    using normalize_nan_free_within_limit [of "[]" 125000]
      normalize_nan_free_within_limit [of "[7]" 125000]
    by auto
qed

section \<open>Latest value of a candidate\<close>

text \<open>The route takes the last element of the joined array; \<open>/advanced\<close> has the same
  expression for \<open>latestPrice\<close>.\<close>

lemma latestPrice_addFields:
  "latestPrice (addFields d) = (if prices d = [] then None else Some (price (last (prices d))))"
  by (simp add: addFields_def arrayElemAt_last_def last_map)

text \<open>
  Claim C1. The latest value of a candidate is the value of the observation with the
  greatest capture time stamp. The route does not compute it so: on a history that the
  store returns with the newest observation not in the last place, \<open>latestPrice\<close> is the
  value stored last (520), and the observation with the greatest time stamp has 450.
\<close>

theorem latestPrice_is_last_stored:
  "latestPrice (addFields flight_unordered) = Some 520 \<and>
   latest_by_timestamp (prices flight_unordered) = Some 450"
  by (simp add: addFields_def arrayElemAt_last_def flight_unordered_def latest_by_timestamp_def)

theorem latestPrice_is_last_stored_witness:
  "latestPrice (addFields flight_unordered) \<noteq> latest_by_timestamp (prices flight_unordered)"
  using latestPrice_is_last_stored by simp

section \<open>BM25 without overlap\<close>

lemma get0_fold_tf:
  "get0 (fold (\<lambda>t tf. tf(t \<mapsto> get0 tf t + 1)) tokens m) t = get0 m t + count_list tokens t"
  by (induction tokens arbitrary: m) (auto simp: get0_def)

lemma get0_tf_map: "get0 (tf_map tokens) t = count_list tokens t"
proof -
  have "get0 (tf_map tokens) t = get0 Map.empty t + count_list tokens t"
    unfolding tf_map_def by (rule get0_fold_tf)
  then show ?thesis by (simp add: get0_def)
qed

lemma bm25_doc_no_overlap:
  assumes "set tokens \<inter> set q = {}"
  shows "bm25_doc docs q tokens = 0"
proof -
  have "\<forall>t\<in>set q. get0 (tf_map tokens) t = 0"
    using assms by (auto simp: get0_tf_map count_list_0_iff)
  then show ?thesis
    unfolding bm25_doc_def Let_def by (induction q) simp_all
qed

lemmas tok_simps = tokenize_def replace_outside_def in_class_def is_space_def

lemma example_docs_eq:
  "example_docs = [[''emirates'', ''dxb'', ''lhr''], [''singapore'', ''sin'', ''bkk'']]"
  by (simp add: example_docs_def tok_simps)

lemma example_query_eq: "example_query = [''emirates'', ''lhr'']"
  by (simp add: example_query_def tok_simps)

lemma example_bm25: "bm25 example_docs example_query = [2 * ln 2, 0]"
  unfolding example_docs_eq example_query_eq
  by (simp add: bm25_def bm25_doc_def tf_map_def get0_def idf_def df_map_def scan_docs_def
      scan_doc_def vocab_add_def corpus_N_def avgdl_def k1_def bm25_b_def)

text \<open>
  Claim C7. A candidate whose document shares no token with the query has the raw BM25
  score 0. In the example of the specification, with the documents A and B as the
  candidate set, the score of A is positive and the score of B is 0.
\<close>

theorem bm25_zero_without_overlap:
  "(i < length docs \<and> set (docs ! i) \<inter> set q = {} \<longrightarrow> bm25 docs q ! i = 0) \<and>
   0 < bm25 example_docs example_query ! 0 \<and>
   bm25 example_docs example_query ! 1 = 0"
  by (simp add: example_bm25) (simp add: bm25_def bm25_doc_no_overlap)

theorem bm25_zero_without_overlap_witness:
  "bm25 [[''emirates'', ''dxb''], [''sin'']] [''dxb''] ! 1 = 0"
  using bm25_zero_without_overlap [of 1 "[[''emirates'', ''dxb''], [''sin'']]" "[''dxb'']"]
  by simp

section \<open>The Tokenizer\<close>

declare spec_words.simps [simp del]

lemma spec_words_Nil: "spec_words [] = []"
  by (simp add: spec_words.simps)

lemma spec_words_dropWhile: "spec_words (dropWhile is_space s) = spec_words s"
  by (subst spec_words.simps, subst (2) spec_words.simps) simp

lemma spec_words_space: "is_space c \<Longrightarrow> spec_words (c # cs) = spec_words cs"
  using spec_words_dropWhile [of "c # cs"] spec_words_dropWhile [of cs] by simp

lemma spec_words_nonspace:
  "\<not> is_space c \<Longrightarrow>
   spec_words (c # cs) =
     (c # takeWhile (\<lambda>x. \<not> is_space x) cs) # spec_words (dropWhile (\<lambda>x. \<not> is_space x) cs)"
  by (subst spec_words.simps) simp

lemma split_ws_head:
  "split_ws cs =
     takeWhile (\<lambda>x. \<not> is_space x) cs #
       (case dropWhile (\<lambda>x. \<not> is_space x) cs of
          [] \<Rightarrow> []
        | _ # r \<Rightarrow> split_ws (dropWhile is_space r))"
  by (induction cs) simp_all

lemma filter_split_ws: "filter (\<lambda>w. w \<noteq> []) (split_ws s) = spec_words s"
proof (induction s rule: length_induct)
  case (1 s)
  show ?case
  proof (cases s)
    case Nil
    then show ?thesis by (simp add: spec_words_Nil)
  next
    case (Cons c cs)
    show ?thesis
    proof (cases "is_space c")
      case True
      have "length (dropWhile is_space cs) < length s"
        using length_dropWhile_le [of is_space cs] by (simp add: Cons)
      with 1 have "filter (\<lambda>w. w \<noteq> []) (split_ws (dropWhile is_space cs)) =
          spec_words (dropWhile is_space cs)"
        by blast
      with True show ?thesis
        by (simp add: Cons spec_words_space spec_words_dropWhile)
    next
      case False
      let ?d = "dropWhile (\<lambda>x. \<not> is_space x) cs"
      have rest: "filter (\<lambda>w. w \<noteq> [])
          (case ?d of [] \<Rightarrow> [] | _ # r \<Rightarrow> split_ws (dropWhile is_space r)) = spec_words ?d"
      proof (cases ?d)
        case Nil
        show ?thesis unfolding Nil by (simp add: spec_words_Nil)
      next
        case d: (Cons x r)
        have "x = hd ?d" by (simp add: d)
        then have sx: "is_space x"
          using hd_dropWhile [of "\<lambda>x. \<not> is_space x" cs] d by auto
        have "length r < length ?d" by (simp add: d)
        also have "\<dots> \<le> length cs" by (rule length_dropWhile_le)
        finally have "length (dropWhile is_space r) < length s"
          using length_dropWhile_le [of is_space r] by (simp add: Cons)
        with 1 have "filter (\<lambda>w. w \<noteq> []) (split_ws (dropWhile is_space r)) =
            spec_words (dropWhile is_space r)"
          by blast
        then show ?thesis
          using sx by (simp add: d spec_words_space spec_words_dropWhile)
      qed
      have "split_ws s = (c # takeWhile (\<lambda>x. \<not> is_space x) cs) #
          (case ?d of [] \<Rightarrow> [] | _ # r \<Rightarrow> split_ws (dropWhile is_space r))"
        using False by (subst split_ws_head) (simp add: Cons)
      then show ?thesis
        using False rest by (simp add: Cons spec_words_nonspace)
    qed
  qed
qed

lemma tokenize_lower_spec: "tokenize (toLowerCase s) = spec_tokenizer s"
  by (simp add: tokenize_def spec_tokenizer_def replace_outside_def toLowerCase_def filter_split_ws)

lemma spec_words_chars:
  "w \<in> set (spec_words s) \<Longrightarrow> w \<noteq> [] \<and> set w \<subseteq> set s \<and> (\<forall>c\<in>set w. \<not> is_space c)"
proof (induction s arbitrary: w rule: spec_words.induct)
  case (1 s)
  show ?case
  proof (cases "dropWhile is_space s")
    case Nil
    with "1.prems" show ?thesis by (simp add: spec_words.simps [of s])
  next
    case (Cons c cs)
    have c: "\<not> is_space c"
      using hd_dropWhile [of is_space s] Cons by auto
    have sub: "set (c # cs) \<subseteq> set s"
      using set_dropWhileD [of _ is_space s] Cons by auto
    from "1.prems" Cons consider
        "w = c # takeWhile (\<lambda>x. \<not> is_space x) cs"
      | "w \<in> set (spec_words (dropWhile (\<lambda>x. \<not> is_space x) cs))"
      by (auto simp: spec_words.simps [of s])
    then show ?thesis
    proof cases
      case 1
      then show ?thesis
        using c sub set_takeWhileD [of _ "\<lambda>x. \<not> is_space x" cs] by auto
    next
      case 2
      from "1.IH" [OF Cons 2] show ?thesis
        using sub set_dropWhileD [of _ "\<lambda>x. \<not> is_space x" cs] by auto
    qed
  qed
qed

lemma tokenize_chars:
  assumes "w \<in> set (tokenize s)"
  shows "w \<noteq> [] \<and> set w \<subseteq> set ''abcdefghijklmnopqrstuvwxyz0123456789-''"
proof -
  from assms have "w \<in> set (spec_words (replace_outside s))"
    by (simp add: tokenize_def filter_split_ws)
  from spec_words_chars [OF this]
  have ne: "w \<noteq> []" and sub: "set w \<subseteq> set (replace_outside s)"
    and ns: "\<forall>c\<in>set w. \<not> is_space c" by simp_all
  have "in_class c" if "c \<in> set (replace_outside s)" for c
    using that by (auto simp: replace_outside_def in_class_def is_space_def)
  with sub ns have "\<forall>c\<in>set w. c \<in> set ''abcdefghijklmnopqrstuvwxyz0123456789-''"
    unfolding in_class_def by blast
  with ne show ?thesis by blast
qed

text \<open>The route lowercases a text before it tokenizes it; \<open>tokenize\<close> alone replaces an
  uppercase letter by a space.\<close>

lemma tokenize_alone: "tokenize ''Emirates'' = [''mirates'']"
  by (simp add: tok_simps)

text \<open>
  Claim C6. For every input string the Tokenizer, that is the lowercasing of the route
  followed by \<open>tokenize\<close>, yields the tokens that the specification describes: lowercase,
  replace every character outside \<open>[a-z0-9\s-]\<close> by a space, split on runs of white space,
  drop empty tokens. The route applies it to the text of every candidate and to the text
  of the query. Every token is non-empty and made of lowercase letters, digits and
  hyphens; an uppercase letter is kept as its lowercase form.
\<close>

theorem tokenizer_refines_spec:
  "tokenize (toLowerCase s) = spec_tokenizer s \<and>
   docTokens ds =
     map (\<lambda>d. spec_tokenizer (join_space [airline d, route_from d, route_to d,
                 or_empty (aircraft d), flight_class d])) ds \<and>
   qTokens req =
     spec_tokenizer (if truthy (p_query req) then or_empty (p_query req)
                     else join_space (map or_empty
                            (filter truthy [p_from req, p_to req, p_airline req]))) \<and>
   (\<forall>w\<in>set (tokenize (toLowerCase s)).
      w \<noteq> [] \<and> set w \<subseteq> set ''abcdefghijklmnopqrstuvwxyz0123456789-'') \<and>
   tokenize (toLowerCase ''Emirates'') = [''emirates'']"
proof -
  have "docTokens ds =
      map (\<lambda>d. spec_tokenizer (join_space [airline d, route_from d, route_to d,
                  or_empty (aircraft d), flight_class d])) ds"
    by (simp add: docTokens_def textOf_def tokenize_lower_spec)
  moreover have "qTokens req =
      spec_tokenizer (if truthy (p_query req) then or_empty (p_query req)
                      else join_space (map or_empty
                             (filter truthy [p_from req, p_to req, p_airline req])))"
    by (simp only: qTokens_def query_text_def tokenize_lower_spec)
  moreover have "tokenize (toLowerCase ''Emirates'') = [''emirates'']"
    by (simp add: tok_simps toLowerCase_def toLowerCase_char_def)
  ultimately show ?thesis
    using tokenize_lower_spec tokenize_chars by blast
qed

theorem tokenizer_refines_spec_witness:
  "spec_tokenizer ''Emirates DXB-LHR, Boeing 777!'' =
     [''emirates'', ''dxb-lhr'', ''boeing'', ''777'']"
proof -
  have "spec_tokenizer ''Emirates DXB-LHR, Boeing 777!'' =
      tokenize (toLowerCase ''Emirates DXB-LHR, Boeing 777!'')"
    using tokenizer_refines_spec [of "''Emirates DXB-LHR, Boeing 777!''" "[]" request_plain]
    by simp
  also have "\<dots> = [''emirates'', ''dxb-lhr'', ''boeing'', ''777'']"
    by (simp add: tok_simps toLowerCase_def toLowerCase_char_def)
  finally show ?thesis .
qed

section \<open>Candidate retrieval and filtering\<close>

subsection \<open>Shape of the scored list\<close>

lemma length_bm25N: "length (bm25_norm req ds) = length ds"
  by (simp add: bm25_norm_def normalize_length bm25_def docTokens_def)

lemma length_cosN: "length (cos_norm req ds) = length ds"
  by (simp add: cos_norm_def normalize_length cos_scores_def docTokens_def Let_def)

lemma length_hybrid: "length (hybrid_list req ds) = length ds"
  by (simp add: hybrid_list_def hybrid_def length_bm25N length_cosN)

lemma length_withScores: "length (scored_list req ds) = length ds"
  by (simp add: scored_list_def withScores_def hybrid_def length_bm25N length_cosN)

lemma nth_withScores:
  assumes "i < length ds"
  shows "scored_list req ds ! i =
     candidate.extend (ds ! i)
       \<lparr> score_bm25 = bm25_norm req ds ! i, score_cosine = cos_norm req ds ! i,
         score_hybrid = hybrid_list req ds ! i, score_alpha = alphaNum req \<rparr>"
  using assms
  by (simp add: scored_list_def withScores_def hybrid_list_def hybrid_def length_bm25N
      length_cosN)

lemma in_withScoresD:
  assumes "x \<in> set (scored_list req ds)"
  shows "\<exists>i<length ds. x = scored_list req ds ! i"
  using assms by (metis in_set_conv_nth length_withScores)

lemma withScores_latestPrice:
  assumes "x \<in> set (scored_list req ds)"
  shows "\<exists>d\<in>set ds. latestPrice x = latestPrice d \<and> prices x = prices d"
proof -
  from in_withScoresD [OF assms] obtain i where i: "i < length ds"
    and x: "x = scored_list req ds ! i" by blast
  have "latestPrice x = latestPrice (ds ! i) \<and> prices x = prices (ds ! i)"
    by (simp add: x nth_withScores [OF i] candidate.defs)
  with i show ?thesis by auto
qed

subsection \<open>The route within and beyond the bound of the engine\<close>

lemma bm25N_Inr: "length ds \<le> maxArgs \<Longrightarrow> bm25N maxArgs req ds = Inr (bm25_norm req ds)"
  by (simp add: bm25N_def bm25_norm_def normalize_arr_Inr bm25_def docTokens_def)

lemma cosN_Inr: "length ds \<le> maxArgs \<Longrightarrow> cosN maxArgs req ds = Inr (cos_norm req ds)"
  by (simp add: cosN_def cos_norm_def normalize_arr_Inr cos_scores_def docTokens_def Let_def)

lemma sorted_by_Inr:
  "length ds \<le> maxArgs \<Longrightarrow>
   sorted_by maxArgs req ds = Inr (js_sort (comparator (p_sortBy req)) (scored_list req ds))"
  by (simp add: sorted_by_def bm25N_Inr cosN_Inr scored_list_def)

lemma sorted_by_Inl: "maxArgs < length ds \<Longrightarrow> sorted_by maxArgs req ds = Inl RangeError"
  by (simp add: sorted_by_def bm25N_def normalize_arr_Inl bm25_def docTokens_def)

lemma sorted_by_InrD:
  assumes "sorted_by maxArgs req ds = Inr ws"
  shows "ws = js_sort (comparator (p_sortBy req)) (scored_list req ds)"
proof (cases "length ds \<le> maxArgs")
  case True
  from sorted_by_Inr [OF this] assms show ?thesis by simp
next
  case False
  then have "sorted_by maxArgs req ds = Inl RangeError"
    by (simp add: sorted_by_Inl)
  with assms show ?thesis by simp
qed

lemma hybrid_search_Inr:
  "length (filtered req joined) \<le> maxArgs \<Longrightarrow>
   hybrid_search maxArgs req (Inr joined) =
     Inr (respond req (js_sort (comparator (p_sortBy req)) (scored_list req (filtered req joined))))"
  by (simp add: hybrid_search_def sorted_by_Inr)

lemma hybrid_search_InrD:
  assumes "hybrid_search maxArgs req (Inr joined) = Inr r"
  shows "r = respond req (js_sort (comparator (p_sortBy req)) (scored_list req (filtered req joined)))"
proof (cases "sorted_by maxArgs req (filtered req joined)")
  case (Inl e)
  with assms show ?thesis by (simp add: hybrid_search_def)
next
  case (Inr ws)
  from sorted_by_InrD [OF this] Inr assms show ?thesis by (simp add: hybrid_search_def)
qed

text \<open>With more filtered candidates than the engine takes arguments the route answers
  with status 500.\<close>

lemma hybrid_search_Inl:
  "maxArgs < length (filtered req joined) \<Longrightarrow>
   hybrid_search maxArgs req (Inr joined) = Inl (ServerError ''Maximum call stack size exceeded'')"
  by (simp add: hybrid_search_def sorted_by_Inl message_def)

subsection \<open>Sorting and slicing keep the elements\<close>

lemma set_insert_cmp: "set (insert_cmp cmp x ys) = insert x (set ys)"
  by (induction ys) auto

lemma length_insert_cmp: "length (insert_cmp cmp x ys) = Suc (length ys)"
  by (induction ys) auto

lemma set_js_sort: "set (js_sort cmp xs) = set xs"
  by (induction xs) (simp_all add: js_sort_def set_insert_cmp)

lemma length_js_sort: "length (js_sort cmp xs) = length xs"
  by (induction xs) (simp_all add: js_sort_def length_insert_cmp)

lemma set_js_slice: "set (js_slice xs a b) \<subseteq> set xs"
  unfolding js_slice_def Let_def
  by (meson set_take_subset set_drop_subset subset_trans)

subsection \<open>Price bounds\<close>

lemma priceFilter_has_price:
  assumes "minP \<noteq> None \<or> maxP \<noteq> None" and "priceFilter minP maxP d"
  shows "latestPrice d \<noteq> None"
  using assms by (auto simp: priceFilter_def match_gte_def match_lte_def split: option.splits)

lemma filtered_subset: "set (filtered req joined) \<subseteq> set (candidates req joined)"
  by (auto simp: filtered_def)

lemma candidates_subset: "set (candidates req joined) \<subseteq> addFields ` set joined"
  by (auto simp: candidates_def)

lemma filtered_has_price:
  assumes "p_minPrice req \<noteq> None \<or> p_maxPrice req \<noteq> None"
    and "d \<in> set (filtered req joined)"
  shows "latestPrice d \<noteq> None"
proof -
  from assms(2) filtered_subset have "d \<in> set (candidates req joined)" by blast
  with assms(1) have "priceFilter (p_minPrice req) (p_maxPrice req) d"
    by (auto simp: candidates_def)
  with assms(1) show ?thesis by (rule priceFilter_has_price)
qed

lemma addFields_no_price: "latestPrice (addFields f) = None \<longleftrightarrow> prices f = []"
  by (simp add: addFields_def arrayElemAt_last_def)

lemma prices_addFields: "prices (addFields f) = prices f"
  by (simp add: addFields_def)

lemma data_respond_subset: "set (data (respond req xs)) \<subseteq> set xs"
  by (simp add: respond_def Let_def set_js_slice)

lemma data_subset:
  assumes "hybrid_search maxArgs req (Inr joined) = Inr r" and "x \<in> set (data r)"
  shows "\<exists>d\<in>set (filtered req joined). latestPrice x = latestPrice d \<and> prices x = prices d"
proof -
  from hybrid_search_InrD [OF assms(1)] assms(2) data_respond_subset
  have "x \<in> set (js_sort (comparator (p_sortBy req)) (scored_list req (filtered req joined)))"
    by blast
  then have "x \<in> set (scored_list req (filtered req joined))"
    by (simp add: set_js_sort)
  then show ?thesis by (rule withScores_latestPrice)
qed

text \<open>The filter in memory keeps a candidate without a latest value when only one bound
  is given; it is the \<open>$match\<close> stage before it that removes the candidate.\<close>

lemma in_price_range_unpriced:
  "latestPrice d = None \<Longrightarrow> in_price_range (Some (Num lo)) None d"
  "latestPrice d = None \<Longrightarrow> in_price_range None (Some (Num hi)) d"
  by (simp_all add: in_price_range_def price_or_def js_ge_def)

text \<open>
  Claim C2. When the request gives \<open>minPrice\<close> or \<open>maxPrice\<close>, a candidate with no
  observation, which has no latest value, is excluded: no such flight is among the
  filtered candidates, every filtered candidate has a latest value, and so has every item
  of the response.
\<close>

theorem price_bound_excludes_unpriced:
  assumes "p_minPrice req \<noteq> None \<or> p_maxPrice req \<noteq> None"
  shows "(\<forall>f\<in>set joined. prices f = [] \<longrightarrow> addFields f \<notin> set (filtered req joined)) \<and>
         (\<forall>d\<in>set (filtered req joined). latestPrice d \<noteq> None \<and> prices d \<noteq> []) \<and>
         (\<forall>maxArgs r. hybrid_search maxArgs req (Inr joined) = Inr r \<longrightarrow>
            (\<forall>x\<in>set (data r). latestPrice x \<noteq> None \<and> prices x \<noteq> []))"
proof -
  have priced: "latestPrice d \<noteq> None \<and> prices d \<noteq> []" if "d \<in> set (filtered req joined)" for d
  proof -
    from that filtered_subset candidates_subset obtain f where "d = addFields f"
      by blast
    with filtered_has_price [OF assms that] show ?thesis
      by (simp add: addFields_no_price prices_addFields)
  qed
  then have "addFields f \<notin> set (filtered req joined)" if "prices f = []" for f
    using that prices_addFields by fastforce
  moreover have "latestPrice x \<noteq> None \<and> prices x \<noteq> []"
    if "hybrid_search maxArgs req (Inr joined) = Inr r" "x \<in> set (data r)" for maxArgs r x
    using data_subset [OF that] priced by metis
  ultimately show ?thesis using priced by blast
qed


theorem price_bound_excludes_unpriced_witness:
  "addFields flight_unpriced \<notin> set (filtered request_min_price [flight_unordered, flight_unpriced]) \<and>
   filtered request_min_price [flight_unpriced] = []"
proof -
  have a: "p_minPrice request_min_price \<noteq> None \<or> p_maxPrice request_min_price \<noteq> None"
    by (simp add: request_min_price_def)
  have e: "prices flight_unpriced = []"
    by (simp add: flight_unpriced_def)
  have "addFields flight_unpriced \<notin> set (filtered request_min_price [flight_unordered, flight_unpriced])"
    using price_bound_excludes_unpriced [OF a, of "[flight_unordered, flight_unpriced]"] e by simp
  moreover have "filtered request_min_price [flight_unpriced] = []"
  proof (rule ccontr)
    assume "filtered request_min_price [flight_unpriced] \<noteq> []"
    then obtain d where d: "d \<in> set (filtered request_min_price [flight_unpriced])"
      by (meson last_in_set)
    with filtered_subset candidates_subset have "d = addFields flight_unpriced"
      by fastforce
    with d price_bound_excludes_unpriced [OF a, of "[flight_unpriced]"] e show False
      by simp
  qed
  ultimately show ?thesis by simp
qed

section \<open>Pagination\<close>

lemma slice_index_nat: "0 \<le> k \<Longrightarrow> slice_index len (Num (of_int k)) = min (nat k) len"
  by (simp add: slice_index_def)

lemma js_slice_page:
  assumes "1 \<le> p" "1 \<le> l"
  shows "js_slice xs (js_mul (js_sub (Num (of_int p)) (Num 1)) (Num (of_int l)))
           (js_mul (Num (of_int p)) (Num (of_int l))) =
         take (nat l) (drop (nat ((p - 1) * l)) xs)"
proof -
  have s: "js_mul (js_sub (Num (of_int p)) (Num 1)) (Num (of_int l)) = Num (of_int ((p - 1) * l))"
    by (simp add: js_sub_def)
  have e: "js_mul (Num (of_int p)) (Num (of_int l)) = Num (of_int (p * l))"
    by simp
  have k0: "0 \<le> (p - 1) * l" and f0: "0 \<le> p * l"
    using assms by simp_all
  define k where "k = nat ((p - 1) * l)"
  have kl: "nat (p * l) = k + nat l"
    using assms by (simp add: k_def nat_add_distrib [symmetric] algebra_simps)
  have "js_slice xs (Num (of_int ((p - 1) * l))) (Num (of_int (p * l))) =
      take (min (k + nat l) (length xs) - min k (length xs)) (drop (min k (length xs)) xs)"
    unfolding js_slice_def Let_def slice_index_nat [OF k0] slice_index_nat [OF f0] kl k_def ..
  also have "\<dots> = take (nat l) (drop k xs)"
  proof (cases "k < length xs")
    case True
    then show ?thesis by (cases "k + nat l \<le> length xs") (simp_all add: min_def)
  next
    case False
    then show ?thesis by (simp add: min_def)
  qed
  finally show ?thesis by (simp only: s e k_def)
qed

lemma totalPages_ceiling:
  assumes "1 \<le> l"
  shows "Math_ceil (js_div (Num (real n)) (Num (of_int l))) = Num (of_int \<lceil>real n / of_int l\<rceil>)"
  using assms by simp

lemma beyond_last_page:
  assumes "1 \<le> l" and "\<lceil>real n / of_int l\<rceil> < p"
  shows "n \<le> nat ((p - 1) * l)"
proof -
  from assms(2) have "\<lceil>real n / of_int l\<rceil> \<le> p - 1" by simp
  then have "real n / of_int l \<le> of_int (p - 1)" by (simp only: ceiling_le_iff)
  then have "real n \<le> of_int (p - 1) * of_int l"
    using assms(1) by (simp add: pos_divide_le_eq)
  then have "int n \<le> (p - 1) * l"
    by (metis of_int_le_iff of_int_mult of_int_of_nat_eq)
  then show ?thesis by simp
qed

text \<open>
  Claim C9. Pages are numbered from 1 and have a fixed size. For a page number \<open>p\<close> and
  a page size \<open>l\<close>, both at least 1 (given, or the defaults 1 and 20), the response
  built from the sorted list has the items \<open>(p - 1) * l\<close> to \<open>p * l - 1\<close> of that list,
  the total count, the page count \<open>ceil(total / l)\<close>, \<open>hasNext\<close> exactly when \<open>p\<close> is
  below the page count and \<open>hasPrev\<close> exactly when \<open>p\<close> is above 1; a page beyond the
  last one has no items and the same totals. When the filtered candidates are not more
  than the engine takes arguments, the route answers with this response, a page beyond
  the last one included, and not with an error.
\<close>

theorem pagination_contract:
  assumes page: "(case p_page req of None \<Rightarrow> Num 1 | Some v \<Rightarrow> v) = Num (of_int p)"
    and limit: "(case p_limit req of None \<Rightarrow> Num 20 | Some v \<Rightarrow> v) = Num (of_int l)"
    and p: "1 \<le> p" and l: "1 \<le> l"
  shows "totalResults (respond req xs) = length xs \<and>
         currentPage (respond req xs) = Num (of_int p) \<and>
         totalPages (respond req xs) = Num (of_int \<lceil>real (length xs) / of_int l\<rceil>) \<and>
         hasNext (respond req xs) = (p < \<lceil>real (length xs) / of_int l\<rceil>) \<and>
         hasPrev (respond req xs) = (1 < p) \<and>
         data (respond req xs) = take (nat l) (drop (nat ((p - 1) * l)) xs) \<and>
         (\<lceil>real (length xs) / of_int l\<rceil> < p \<longrightarrow> data (respond req xs) = []) \<and>
         (length (filtered req joined) \<le> maxArgs \<longrightarrow>
            (\<exists>ws. sorted_by maxArgs req (filtered req joined) = Inr ws \<and>
                  length ws = length (filtered req joined) \<and>
                  hybrid_search maxArgs req (Inr joined) = Inr (respond req ws)))"
proof -
  define r where "r = respond req xs"
  have tr: "totalResults r = length xs"
    by (simp add: r_def respond_def Let_def)
  have cp: "currentPage r = Num (of_int p)"
    by (simp add: r_def respond_def Let_def page)
  have tp: "totalPages r = Num (of_int \<lceil>real (length xs) / of_int l\<rceil>)"
    using l by (simp add: r_def respond_def Let_def limit)
  have hn: "hasNext r = (p < \<lceil>real (length xs) / of_int l\<rceil>)"
  proof -
    have "hasNext r = js_lt (Num (of_int p)) (totalPages r)"
      by (simp add: r_def respond_def Let_def page)
    then show ?thesis by (simp add: tp)
  qed
  have hp: "hasPrev r = (1 < p)"
    by (simp add: r_def respond_def Let_def page js_gt_def)
  have dt: "data r = take (nat l) (drop (nat ((p - 1) * l)) xs)"
    using js_slice_page [OF p l, of xs] by (simp add: r_def respond_def Let_def page limit)
  have beyond: "data r = []" if "\<lceil>real (length xs) / of_int l\<rceil> < p"
    using beyond_last_page [OF l that] by (simp add: dt)
  have route: "\<exists>ws. sorted_by maxArgs req (filtered req joined) = Inr ws \<and>
      length ws = length (filtered req joined) \<and>
      hybrid_search maxArgs req (Inr joined) = Inr (respond req ws)"
    if "length (filtered req joined) \<le> maxArgs"
    using sorted_by_Inr [OF that] hybrid_search_Inr [OF that]
    by (simp add: length_js_sort length_withScores)
  from tr cp tp hn hp dt beyond route show ?thesis
    unfolding r_def by blast
qed

theorem pagination_contract_witness:
  "data (projr (hybrid_search 125000 request_page3 (Inr three_flights))) = [] \<and>
   totalResults (projr (hybrid_search 125000 request_page3 (Inr three_flights))) = 3 \<and>
   totalPages (projr (hybrid_search 125000 request_page3 (Inr three_flights))) = Num 2 \<and>
   hasNext (projr (hybrid_search 125000 request_page3 (Inr three_flights))) = False \<and>
   hasPrev (projr (hybrid_search 125000 request_page3 (Inr three_flights))) = True"
proof -
  have pg: "(case p_page request_page3 of None \<Rightarrow> Num 1 | Some v \<Rightarrow> v) = Num (of_int 3)"
    and lm: "(case p_limit request_page3 of None \<Rightarrow> Num 20 | Some v \<Rightarrow> v) = Num (of_int 2)"
    by (simp_all add: request_page3_def)
  have n: "length (filtered request_page3 three_flights) = 3"
    by (simp add: filtered_def candidates_def request_page3_def three_flights_def)
  have p3: "1 \<le> (3::int)" and l2: "1 \<le> (2::int)"
    by simp_all
  note pc = pagination_contract [OF pg lm p3 l2]
  from pc [where joined = three_flights and maxArgs = 125000] n obtain ws where
    ws: "length ws = 3"
    "hybrid_search 125000 request_page3 (Inr three_flights) = Inr (respond request_page3 ws)"
    by auto
  from pc [where xs = ws] ws show ?thesis
    by simp
qed

section \<open>Scores of the items\<close>

subsection \<open>The weight\<close>

lemma clamp_alpha_Num: "clamp_alpha (Num a) = Num (max 0 (min 1 a))"
  by (auto simp: clamp_alpha_def max_def min_def)

lemma clamp_alpha_NaN: "clamp_alpha NaN = NaN"
  by (simp add: clamp_alpha_def)

lemma clamp_alpha_below: "js_lt v (Num 0) \<Longrightarrow> clamp_alpha v = Num 0"
  by (cases v) (simp_all add: clamp_alpha_def)

lemma clamp_alpha_above: "js_lt (Num 1) v \<Longrightarrow> clamp_alpha v = Num 1"
  by (cases v) (simp_all add: clamp_alpha_def)

lemma fuse_Num: "fuse (Num a) (Num b) (Num c) = Num (a * b + (1 - a) * c)"
  by (simp add: fuse_def js_sub_def)

lemma fuse_NaN: "fuse NaN b c = NaN"
  by (simp add: fuse_def)

subsection \<open>Normalized scores are numbers\<close>

lemma bm25N_Num:
  assumes "i < length ds"
  shows "\<exists>b. bm25_norm req ds ! i = Num b \<and> 0 \<le> b \<and> b \<le> 1"
proof -
  have "bm25_norm req ds ! i \<in> set (bm25_norm req ds)"
    using assms by (simp add: length_bm25N)
  then show ?thesis
    unfolding bm25_norm_def by (rule normalize_range)
qed

lemma cosN_Num:
  assumes "i < length ds"
  shows "\<exists>c. cos_norm req ds ! i = Num c \<and> 0 \<le> c \<and> c \<le> 1"
proof -
  have "cos_norm req ds ! i \<in> set (cos_norm req ds)"
    using assms by (simp add: length_cosN)
  then show ?thesis
    unfolding cos_norm_def by (rule normalize_range)
qed

lemma nth_hybrid:
  assumes "i < length ds"
  shows "hybrid_list req ds ! i = fuse (alphaNum req) (bm25_norm req ds ! i) (cos_norm req ds ! i)"
  using assms by (simp add: hybrid_list_def hybrid_def length_bm25N length_cosN)

lemma scores_of_item:
  assumes "x \<in> set (scored_list req ds)"
  shows "\<exists>b c. score_bm25 x = Num b \<and> score_cosine x = Num c \<and> 0 \<le> b \<and> b \<le> 1 \<and>
           0 \<le> c \<and> c \<le> 1 \<and> score_hybrid x = fuse (alphaNum req) (Num b) (Num c) \<and>
           score_alpha x = alphaNum req"
proof -
  from in_withScoresD [OF assms] obtain i where i: "i < length ds"
    and x: "x = scored_list req ds ! i" by blast
  from bm25N_Num [OF i] obtain b where b: "bm25_norm req ds ! i = Num b" "0 \<le> b" "b \<le> 1"
    by blast
  from cosN_Num [OF i] obtain c where c: "cos_norm req ds ! i = Num c" "0 \<le> c" "c \<le> 1"
    by blast
  have "score_bm25 x = Num b" "score_cosine x = Num c"
    "score_hybrid x = fuse (alphaNum req) (Num b) (Num c)" "score_alpha x = alphaNum req"
    by (simp_all add: x nth_withScores [OF i] nth_hybrid [OF i] b c candidate.defs)
  with b c show ?thesis by blast
qed

subsection \<open>The sort of the route and sorting by a key\<close>

lemma insert_cmp_cong:
  "\<forall>y\<in>set ys. cmp1 x y = cmp2 x y \<Longrightarrow> insert_cmp cmp1 x ys = insert_cmp cmp2 x ys"
  by (induction ys) simp_all

lemma js_sort_Cons: "js_sort cmp (x # xs) = insert_cmp cmp x (js_sort cmp xs)"
  by (simp add: js_sort_def)

lemma js_sort_cong:
  "\<forall>x\<in>set xs. \<forall>y\<in>set xs. cmp1 x y = cmp2 x y \<Longrightarrow> js_sort cmp1 xs = js_sort cmp2 xs"
proof (induction xs)
  case Nil
  show ?case by (simp add: js_sort_def)
next
  case (Cons x xs)
  then have "js_sort cmp1 xs = js_sort cmp2 xs" by simp
  moreover have "\<forall>y\<in>set (js_sort cmp2 xs). cmp1 x y = cmp2 x y"
    using Cons.prems by (simp add: set_js_sort)
  ultimately show ?case
    by (simp add: js_sort_Cons insert_cmp_cong)
qed

lemma js_sort_ties:
  "\<forall>x\<in>set xs. \<forall>y\<in>set xs. \<not> js_gt (cmp x y) (Num 0) \<Longrightarrow> js_sort cmp xs = xs"
proof (induction xs)
  case Nil
  show ?case by (simp add: js_sort_def)
next
  case (Cons x xs)
  then have "js_sort cmp xs = xs" by simp
  then show ?case
    using Cons.prems by (cases xs) (simp_all add: js_sort_Cons)
qed

text \<open>
  With a comparator \<open>(a, b) => key(b) - key(a)\<close> on keys that are numbers, the sort of
  the route is the stable sort by descending key: the insertion sort of the library on the
  negated key.
\<close>

lemma insert_cmp_insort_key:
  assumes "\<forall>y\<in>set (x # ys). \<exists>r. key y = Num r"
  shows "insert_cmp (\<lambda>a b. js_sub (key b) (key a)) x ys =
         insort_key (\<lambda>z. - num_of (key z)) x ys"
  using assms
proof (induction ys)
  case Nil
  show ?case by simp
next
  case (Cons y ys)
  from Cons.prems obtain rx ry where rx: "key x = Num rx" and ry: "key y = Num ry"
    by auto
  have "js_gt (js_sub (key y) (key x)) (Num 0) \<longleftrightarrow> \<not> - num_of (key x) \<le> - num_of (key y)"
    by (auto simp: rx ry js_gt_def js_sub_def num_of_def)
  with Cons show ?case by simp
qed

lemma js_sort_sort_key:
  assumes "\<forall>y\<in>set xs. \<exists>r. key y = Num r"
  shows "js_sort (\<lambda>a b. js_sub (key b) (key a)) xs = sort_key (\<lambda>z. - num_of (key z)) xs"
  using assms
proof (induction xs)
  case Nil
  show ?case by (simp add: js_sort_def)
next
  case (Cons x xs)
  then have ih: "js_sort (\<lambda>a b. js_sub (key b) (key a)) xs = sort_key (\<lambda>z. - num_of (key z)) xs"
    by simp
  have "\<forall>y\<in>set (x # sort_key (\<lambda>z. - num_of (key z)) xs). \<exists>r. key y = Num r"
    using Cons.prems by simp
  from insert_cmp_insort_key [OF this] show ?case
    by (simp add: js_sort_Cons ih)
qed

lemma cmp_relevance_key: "cmp_relevance = (\<lambda>a b. js_sub (score_hybrid b) (score_hybrid a))"
  by (intro ext) (simp add: cmp_relevance_def)

subsection \<open>An empty query\<close>

lemma qTokens_empty:
  assumes "\<not> truthy (p_query req)" "\<not> truthy (p_from req)" "\<not> truthy (p_to req)"
    "\<not> truthy (p_airline req)"
  shows "qTokens req = []"
  using assms by (simp add: qTokens_def query_text_def toLowerCase_def tokenize_def replace_outside_def)

lemma bm25_empty_query: "bm25 docs [] = map (\<lambda>d. 0) docs"
  by (simp add: bm25_def bm25_doc_def)

lemma dot_from_zeros: "dot_from s (map (\<lambda>t. 0) ts) b = s"
  by (induction ts arbitrary: s b) simp_all

lemma vec_empty: "vec docs q [] = map (\<lambda>t. 0) (terms docs q)"
  by (simp add: vec_def tf_map_def get0_def)

lemma cos_empty_query: "cos_scores docs [] = map (\<lambda>d. 0) docs"
  by (simp add: cos_scores_def vec_empty dot_def dot_from_zeros)

lemma normalize_zeros: "normalized (map (\<lambda>d. 0) xs) = map (\<lambda>d. Num 0) xs"
  using normalize_all_equal [of "map (\<lambda>d. 0) xs"] by (simp add: comp_def)

lemma hybrid_empty_query:
  assumes "qTokens req = []"
  shows "hybrid_list req ds = map (\<lambda>d. fuse (alphaNum req) (Num 0) (Num 0)) ds"
proof -
  have "bm25_norm req ds = map (\<lambda>d. Num 0) ds" "cos_norm req ds = map (\<lambda>d. Num 0) ds"
    using normalize_zeros [of "docTokens ds"]
    by (simp_all add: bm25_norm_def cos_norm_def assms bm25_empty_query cos_empty_query docTokens_def
        comp_def)
  then show ?thesis
    by (simp add: hybrid_list_def hybrid_def map2_map_map)
qed


lemma map_latestPrice_withScores: "map latestPrice (scored_list req ds) = map latestPrice ds"
  by (rule nth_equalityI) (simp_all add: length_withScores nth_withScores candidate.defs)

lemma map_hybrid_withScores: "map score_hybrid (scored_list req ds) = hybrid_list req ds"
  by (rule nth_equalityI)
    (simp_all add: length_withScores length_hybrid nth_withScores candidate.defs)

lemma comparator_relevance:
  "p_sortBy req = None \<or> p_sortBy req = Some ''relevance'' \<Longrightarrow>
   comparator (p_sortBy req) = cmp_relevance"
  by (auto simp: comparator_def)

subsection \<open>Fusion\<close>

text \<open>An example with a query text: the query \<open>emirates\<close> with the weight 1, on the Thai
  flight followed by the Emirates flight.\<close>

lemma half_le_ln2: "1 / 2 \<le> ln (2::real)"
proof -
  have "ln (1 / 2 :: real) \<le> 1 / 2 - 1"
    by (rule ln_le_minus_one) simp
  moreover have "ln (1 / 2 :: real) = - ln 2"
    by (simp add: ln_div)
  ultimately show ?thesis by simp
qed

lemma normalized_pair:
  assumes "e12 \<le> v"
  shows "normalized [0, v] = [Num 0, Num 1]"
proof -
  have "0 < v" using assms e12_pos by simp
  then have "spread [0, v] = v"
    by (simp add: spread_def max_def min_def)
  with assms \<open>0 < v\<close> show ?thesis
    by (simp add: normalized_def min_def)
qed

lemma emirates_docTokens:
  "docTokens (map addFields reversed_flights) =
     [[''thai'', ''airways'', ''lhe'', ''bkk'', ''economy''],
      [''emirates'', ''dxb'', ''lhr'', ''economy'']]"
  by (simp add: docTokens_def reversed_flights_def addFields_def textOf_def flight_cheaper_def
      flight_unordered_def or_empty_def toLowerCase_def toLowerCase_char_def tok_simps)

lemma emirates_qTokens: "qTokens request_emirates = [''emirates'']"
  by (simp add: qTokens_def request_emirates_def request_plain_def query_text_def truthy_def
      or_empty_def toLowerCase_def toLowerCase_char_def tok_simps)

lemma emirates_bm25:
  "bm25 (docTokens (map addFields reversed_flights)) (qTokens request_emirates) =
     [0, ln 2 * (20 / 19)]"
  unfolding emirates_docTokens emirates_qTokens
  by (simp add: bm25_def bm25_doc_def tf_map_def get0_def idf_def df_map_def scan_docs_def
      scan_doc_def vocab_add_def corpus_N_def avgdl_def k1_def bm25_b_def)

lemma emirates_bm25_norm:
  "bm25_norm request_emirates (map addFields reversed_flights) = [Num 0, Num 1]"
proof -
  have "e12 \<le> ln 2 * (20 / 19)"
    using half_le_ln2 by (simp add: e12_def)
  then show ?thesis
    by (simp only: bm25_norm_def emirates_bm25 normalized_pair)
qed

text \<open>
  Claim C5. For every weight \<open>a\<close> in \<open>[0,1]\<close>, given by the request or the default 0.5,
  and every candidate of a set that is not larger than the bound of the engine, the
  normalized scores are numbers \<open>b\<close> and \<open>c\<close> and the fused score is
  \<open>a * b + (1 - a) * c\<close>. The relevance strategy ranks the candidates by descending fused
  score, equal scores in the order of retrieval. At \<open>a = 1\<close> this ranking is the ranking
  by descending normalized BM25 score, and at \<open>a = 0\<close> it is the ranking by descending
  normalized cosine score.
\<close>

theorem fused_score_convex:
  assumes al: "(case p_alpha req of None \<Rightarrow> Num 0.5 | Some v \<Rightarrow> v) = Num a"
    and a0: "0 \<le> a" and a1: "a \<le> 1"
    and bound: "length ds \<le> maxArgs"
  shows "alphaNum req = Num a \<and>
         (p_alpha req = None \<longrightarrow> a = 0.5) \<and>
         (\<exists>bN cN ws.
            bm25N maxArgs req ds = Inr bN \<and> cosN maxArgs req ds = Inr cN \<and>
            length bN = length ds \<and> length cN = length ds \<and>
            ws = withScores (alphaNum req) ds bN cN \<and>
            (\<forall>i<length ds. \<exists>b c. bN ! i = Num b \<and> cN ! i = Num c \<and>
               hybrid (alphaNum req) bN cN ! i = Num (a * b + (1 - a) * c)) \<and>
            (\<forall>x\<in>set ws. \<exists>b c. score_bm25 x = Num b \<and> score_cosine x = Num c \<and>
               score_hybrid x = Num (a * b + (1 - a) * c)) \<and>
            (p_sortBy req = None \<or> p_sortBy req = Some ''relevance'' \<longrightarrow>
               sorted_by maxArgs req ds = Inr (js_sort cmp_relevance ws)) \<and>
            js_sort cmp_relevance ws = sort_key (\<lambda>x. - num_of (score_hybrid x)) ws \<and>
            (a = 1 \<longrightarrow> js_sort cmp_relevance ws = sort_key (\<lambda>x. - num_of (score_bm25 x)) ws) \<and>
            (a = 0 \<longrightarrow> js_sort cmp_relevance ws = sort_key (\<lambda>x. - num_of (score_cosine x)) ws))"
proof -
  define ws where "ws = scored_list req ds"
  have an: "alphaNum req = Num a"
    using a0 a1 by (simp add: alphaNum_def al clamp_alpha_Num)
  have dflt: "a = 0.5" if "p_alpha req = None"
    using al that by simp
  have wsd: "ws = withScores (alphaNum req) ds (bm25_norm req ds) (cos_norm req ds)"
    by (simp add: ws_def scored_list_def)
  have idx: "\<exists>b c. bm25_norm req ds ! i = Num b \<and> cos_norm req ds ! i = Num c \<and>
      hybrid (alphaNum req) (bm25_norm req ds) (cos_norm req ds) ! i = Num (a * b + (1 - a) * c)"
    if "i < length ds" for i
  proof -
    from bm25N_Num [OF that] obtain b where b: "bm25_norm req ds ! i = Num b" by blast
    from cosN_Num [OF that] obtain c where c: "cos_norm req ds ! i = Num c" by blast
    from nth_hybrid [OF that, of req] show ?thesis
      by (simp add: hybrid_list_def b c an fuse_Num)
  qed
  have item: "\<exists>b c. score_bm25 x = Num b \<and> score_cosine x = Num c \<and>
      score_hybrid x = Num (a * b + (1 - a) * c)" if "x \<in> set ws" for x
    using scores_of_item [of x req ds] that by (auto simp: ws_def an fuse_Num)
  have srt: "sorted_by maxArgs req ds = Inr (js_sort cmp_relevance ws)"
    if "p_sortBy req = None \<or> p_sortBy req = Some ''relevance''"
    using sorted_by_Inr [OF bound, of req] comparator_relevance [OF that] by (simp add: ws_def)
  have fusedkey: "js_sort cmp_relevance ws = sort_key (\<lambda>x. - num_of (score_hybrid x)) ws"
    unfolding cmp_relevance_key
  proof (rule js_sort_sort_key, rule ballI)
    fix y assume "y \<in> set ws"
    from item [OF this] show "\<exists>r. score_hybrid y = Num r" by blast
  qed
  have one: "js_sort cmp_relevance ws = sort_key (\<lambda>x. - num_of (score_bm25 x)) ws" if "a = 1"
  proof -
    have eq: "score_hybrid x = score_bm25 x" if "x \<in> set ws" for x
      using item [OF that] \<open>a = 1\<close> by auto
    have "js_sort cmp_relevance ws = js_sort (\<lambda>a b. js_sub (score_bm25 b) (score_bm25 a)) ws"
      by (rule js_sort_cong) (simp add: cmp_relevance_def eq)
    also have "\<dots> = sort_key (\<lambda>x. - num_of (score_bm25 x)) ws"
    proof (rule js_sort_sort_key, rule ballI)
      fix y assume "y \<in> set ws"
      from item [OF this] show "\<exists>r. score_bm25 y = Num r" by blast
    qed
    finally show ?thesis .
  qed
  have zero: "js_sort cmp_relevance ws = sort_key (\<lambda>x. - num_of (score_cosine x)) ws" if "a = 0"
  proof -
    have eq: "score_hybrid x = score_cosine x" if "x \<in> set ws" for x
      using item [OF that] \<open>a = 0\<close> by auto
    have "js_sort cmp_relevance ws = js_sort (\<lambda>a b. js_sub (score_cosine b) (score_cosine a)) ws"
      by (rule js_sort_cong) (simp add: cmp_relevance_def eq)
    also have "\<dots> = sort_key (\<lambda>x. - num_of (score_cosine x)) ws"
    proof (rule js_sort_sort_key, rule ballI)
      fix y assume "y \<in> set ws"
      from item [OF this] show "\<exists>r. score_cosine y = Num r" by blast
    qed
    finally show ?thesis .
  qed
  from bm25N_Inr [OF bound, of req] cosN_Inr [OF bound, of req] wsd idx item srt fusedkey one zero
  have "\<exists>bN cN ws.
      bm25N maxArgs req ds = Inr bN \<and> cosN maxArgs req ds = Inr cN \<and>
      length bN = length ds \<and> length cN = length ds \<and>
      ws = withScores (alphaNum req) ds bN cN \<and>
      (\<forall>i<length ds. \<exists>b c. bN ! i = Num b \<and> cN ! i = Num c \<and>
         hybrid (alphaNum req) bN cN ! i = Num (a * b + (1 - a) * c)) \<and>
      (\<forall>x\<in>set ws. \<exists>b c. score_bm25 x = Num b \<and> score_cosine x = Num c \<and>
         score_hybrid x = Num (a * b + (1 - a) * c)) \<and>
      (p_sortBy req = None \<or> p_sortBy req = Some ''relevance'' \<longrightarrow>
         sorted_by maxArgs req ds = Inr (js_sort cmp_relevance ws)) \<and>
      js_sort cmp_relevance ws = sort_key (\<lambda>x. - num_of (score_hybrid x)) ws \<and>
      (a = 1 \<longrightarrow> js_sort cmp_relevance ws = sort_key (\<lambda>x. - num_of (score_bm25 x)) ws) \<and>
      (a = 0 \<longrightarrow> js_sort cmp_relevance ws = sort_key (\<lambda>x. - num_of (score_cosine x)) ws)"
    by (intro exI [of _ "bm25_norm req ds"] exI [of _ "cos_norm req ds"] exI [of _ ws])
      (simp add: length_bm25N length_cosN)
  with an dflt show ?thesis by blast
qed

theorem fused_score_convex_witness:
  "map airline (projr (sorted_by 125000 request_emirates (map addFields reversed_flights))) =
     [''Emirates'', ''Thai Airways''] \<and>
   map score_hybrid (projr (sorted_by 125000 request_emirates (map addFields reversed_flights))) =
     [Num 1, Num 0]"
proof -
  define ds where "ds = map addFields reversed_flights"
  have al: "(case p_alpha request_emirates of None \<Rightarrow> Num 0.5 | Some v \<Rightarrow> v) = Num 1"
    by (simp add: request_emirates_def)
  have sb: "p_sortBy request_emirates = None \<or> p_sortBy request_emirates = Some ''relevance''"
    by (simp add: request_emirates_def request_plain_def)
  have len: "length ds = 2" "length ds \<le> 125000"
    by (simp_all add: ds_def reversed_flights_def)
  have a01: "0 \<le> (1::real)" "(1::real) \<le> 1"
    by simp_all
  from fused_score_convex [OF al a01 len(2)] obtain bN cN ws where
    bN: "bm25N 125000 request_emirates ds = Inr bN" and lc: "length cN = length ds"
    and idx: "\<forall>i<length ds. \<exists>b c. bN ! i = Num b \<and> cN ! i = Num c \<and>
      hybrid (alphaNum request_emirates) bN cN ! i = Num (1 * b + (1 - 1) * c)"
    and ws: "ws = withScores (alphaNum request_emirates) ds bN cN"
    and srt: "p_sortBy request_emirates = None \<or> p_sortBy request_emirates = Some ''relevance'' \<longrightarrow>
      sorted_by 125000 request_emirates ds = Inr (js_sort cmp_relevance ws)"
    and key1: "(1::real) = 1 \<longrightarrow>
      js_sort cmp_relevance ws = sort_key (\<lambda>x. - num_of (score_bm25 x)) ws"
    by blast
  from srt sb have sorted': "sorted_by 125000 request_emirates ds = Inr (js_sort cmp_relevance ws)"
    by blast
  from key1 have key: "js_sort cmp_relevance ws = sort_key (\<lambda>x. - num_of (score_bm25 x)) ws"
    by simp
  from idx have nums: "\<forall>i<length ds. \<exists>c. cN ! i = Num c"
    by blast
  from bN bm25N_Inr [OF len(2), of request_emirates] have b: "bN = [Num 0, Num 1]"
    by (simp add: ds_def emirates_bm25_norm)
  from lc len(1) obtain v0 v1 where v: "cN = [v0, v1]"
    by (auto simp: length_Suc_conv numeral_2_eq_2)
  from nums len(1) have "\<exists>c. cN ! 0 = Num c" "\<exists>c. cN ! 1 = Num c"
    by simp_all
  with v obtain c0 c1 where c: "cN = [Num c0, Num c1]"
    by auto
  have an: "alphaNum request_emirates = Num 1"
    by (simp add: alphaNum_def request_emirates_def clamp_alpha_Num)
  have "sort_key (\<lambda>x. - num_of (score_bm25 x)) ws = rev ws"
    by (simp add: ws b c ds_def reversed_flights_def withScores_def hybrid_def candidate.defs
        num_of_def)
  with sorted' key have s: "projr (sorted_by 125000 request_emirates ds) = rev ws"
    by simp
  have "map airline (rev ws) = [''Emirates'', ''Thai Airways'']"
    by (simp add: ws b c ds_def reversed_flights_def withScores_def hybrid_def candidate.defs
        addFields_def flight_cheaper_def flight_unordered_def)
  moreover have "map score_hybrid (rev ws) = [Num 1, Num 0]"
    by (simp add: ws b c an ds_def reversed_flights_def withScores_def hybrid_def candidate.defs
        fuse_def js_sub_def)
  ultimately show ?thesis
    using s by (simp add: ds_def)
qed

subsection \<open>A weight outside the unit interval\<close>

text \<open>
  Claim C4 says that a request whose weight lies outside \<open>[0,1]\<close> is rejected before
  retrieval with an error that names the field. The route does not reject it: with
  \<open>alpha=2\<close> it answers with a result, computed with the weight 1.
\<close>

theorem alpha_two_is_not_rejected:
  "\<not> isl (hybrid_search 125000 (request_alpha (Num 2)) (Inr two_flights)) \<and>
   filters_alpha (projr (hybrid_search 125000 (request_alpha (Num 2)) (Inr two_flights))) = Num 1"
proof -
  have "length (filtered (request_alpha (Num 2)) two_flights) \<le> 125000"
    by (simp add: filtered_def candidates_def request_alpha_def request_plain_def
        two_flights_def)
  from hybrid_search_Inr [OF this] show ?thesis
    by (simp add: respond_def Let_def alphaNum_def request_alpha_def clamp_alpha_Num)
qed

text \<open>
  Claim C4, amended. A request whose weight is a number, finite or infinite, below 0 or
  above 1 is not rejected for it. The route clamps the weight to the nearer bound, 0 below
  0 and 1 above 1, and reports the clamped weight in its response; when the filtered
  candidates are not more than the engine takes arguments, it answers with a response
  that it has scored with the clamped weight: the fused score of every item is its
  normalized cosine score at 0 and its normalized BM25 score at 1.
\<close>

theorem alpha_out_of_range_clamped:
  assumes al: "p_alpha req = Some v" and out: "js_lt v (Num 0) \<or> js_lt (Num 1) v"
  shows "alphaNum req = Num (if js_lt v (Num 0) then 0 else 1) \<and>
         filters_alpha (respond req xs) = Num (if js_lt v (Num 0) then 0 else 1) \<and>
         (length (filtered req joined) \<le> maxArgs \<longrightarrow>
            (\<exists>r. hybrid_search maxArgs req (Inr joined) = Inr r \<and>
               filters_alpha r = Num (if js_lt v (Num 0) then 0 else 1) \<and>
               (\<forall>x\<in>set (data r). score_alpha x = Num (if js_lt v (Num 0) then 0 else 1) \<and>
                  score_hybrid x = (if js_lt v (Num 0) then score_cosine x else score_bm25 x))))"
proof -
  define c :: real where "c = (if js_lt v (Num 0) then 0 else 1)"
  have an: "alphaNum req = Num c"
    using out by (auto simp: alphaNum_def al c_def clamp_alpha_below clamp_alpha_above)
  have fa: "filters_alpha (respond req ys) = Num c" for ys
    by (simp add: respond_def Let_def an)
  have route: "\<exists>r. hybrid_search maxArgs req (Inr joined) = Inr r \<and> filters_alpha r = Num c \<and>
      (\<forall>x\<in>set (data r). score_alpha x = Num c \<and>
         score_hybrid x = (if js_lt v (Num 0) then score_cosine x else score_bm25 x))"
    if le: "length (filtered req joined) \<le> maxArgs"
  proof -
    define r where
      "r = respond req (js_sort (comparator (p_sortBy req)) (scored_list req (filtered req joined)))"
    have hs: "hybrid_search maxArgs req (Inr joined) = Inr r"
      using hybrid_search_Inr [OF le] by (simp add: r_def)
    have "score_alpha x = Num c \<and>
        score_hybrid x = (if js_lt v (Num 0) then score_cosine x else score_bm25 x)"
      if "x \<in> set (data r)" for x
    proof -
      from that data_respond_subset have "x \<in> set (scored_list req (filtered req joined))"
        unfolding r_def by (fastforce simp: set_js_sort)
      from scores_of_item [OF this] show ?thesis
        by (auto simp: an fuse_Num c_def)
    qed
    with hs fa [of "js_sort (comparator (p_sortBy req)) (scored_list req (filtered req joined))"]
    show ?thesis unfolding r_def by blast
  qed
  from an fa [of xs] route show ?thesis
    unfolding c_def by blast
qed

theorem alpha_out_of_range_clamped_witness:
  "filters_alpha (projr (hybrid_search 125000 (request_alpha (Num (- 3))) (Inr two_flights))) =
     Num 0 \<and>
   filters_alpha (projr (hybrid_search 125000 (request_alpha PosInf) (Inr two_flights))) = Num 1"
proof -
  have al: "p_alpha (request_alpha (Num (- 3))) = Some (Num (- 3))"
    "p_alpha (request_alpha PosInf) = Some PosInf"
    by (simp_all add: request_alpha_def)
  have le: "length (filtered (request_alpha a) two_flights) \<le> 125000" for a
    by (simp add: filtered_def candidates_def request_alpha_def request_plain_def
        two_flights_def)
  from alpha_out_of_range_clamped [OF al(1), where joined = two_flights and maxArgs = 125000]
    le [of "Num (- 3)"]
  obtain r where "hybrid_search 125000 (request_alpha (Num (- 3))) (Inr two_flights) = Inr r"
    "filters_alpha r = Num 0"
    by auto
  moreover
  from alpha_out_of_range_clamped [OF al(2), where joined = two_flights and maxArgs = 125000]
    le [of PosInf]
  obtain r' where "hybrid_search 125000 (request_alpha PosInf) (Inr two_flights) = Inr r'"
    "filters_alpha r' = Num 1"
    by auto
  ultimately show ?thesis
    by simp
qed

subsection \<open>No query text\<close>

lemma bm25_no_query: "qTokens req = [] \<Longrightarrow> bm25 (docTokens ds) (qTokens req) = map (\<lambda>d. 0) ds"
  by (simp add: bm25_empty_query docTokens_def comp_def)

lemma cos_no_query:
  "qTokens req = [] \<Longrightarrow> cos_scores (docTokens ds) (qTokens req) = map (\<lambda>d. 0) ds"
  by (simp add: cos_empty_query docTokens_def comp_def)

lemma hybrid_no_query_Num:
  "qTokens req = [] \<Longrightarrow> alphaNum req = Num a \<Longrightarrow> hybrid_list req ds = map (\<lambda>d. Num 0) ds"
  by (simp add: hybrid_empty_query fuse_Num)

lemma hybrid_no_query_NaN:
  "qTokens req = [] \<Longrightarrow> alphaNum req = NaN \<Longrightarrow> hybrid_list req ds = map (\<lambda>d. NaN) ds"
  by (simp add: hybrid_empty_query fuse_NaN)

lemma request_alpha_no_text:
  "\<not> truthy (p_query (request_alpha a))" "\<not> truthy (p_from (request_alpha a))"
  "\<not> truthy (p_to (request_alpha a))" "\<not> truthy (p_airline (request_alpha a))"
  by (simp_all add: request_alpha_def request_plain_def truthy_def)

lemma request_plain_no_text:
  "\<not> truthy (p_query request_plain)" "\<not> truthy (p_from request_plain)"
  "\<not> truthy (p_to request_plain)" "\<not> truthy (p_airline request_plain)"
  by (simp_all add: request_plain_def truthy_def)

text \<open>
  Claim C10. Without a query text and without origin, destination and airline, the query
  token list is empty and the raw BM25 score, the raw cosine score and the fused score of
  every candidate are 0. The lemmas above show this for every weight that is a number.
  A parameter \<open>alpha\<close> that does not convert to a number passes the clamp as \<open>NaN\<close>,
  and then every fused score is \<open>NaN\<close>.
\<close>

theorem nan_alpha_fused_is_nan:
  "qTokens (request_alpha NaN) = [] \<and>
   bm25 (docTokens (map addFields two_flights)) (qTokens (request_alpha NaN)) = [0, 0] \<and>
   cos_scores (docTokens (map addFields two_flights)) (qTokens (request_alpha NaN)) = [0, 0] \<and>
   alphaNum (request_alpha NaN) = NaN \<and>
   bm25N 125000 (request_alpha NaN) (map addFields two_flights) = Inr [Num 0, Num 0] \<and>
   cosN 125000 (request_alpha NaN) (map addFields two_flights) = Inr [Num 0, Num 0] \<and>
   hybrid (alphaNum (request_alpha NaN)) [Num 0, Num 0] [Num 0, Num 0] = [NaN, NaN] \<and>
   map score_hybrid
     (projr (sorted_by 125000 (request_alpha NaN) (map addFields two_flights))) = [NaN, NaN]"
proof -
  define ds where "ds = map addFields two_flights"
  have an: "alphaNum (request_alpha NaN) = NaN"
    by (simp add: alphaNum_def request_alpha_def clamp_alpha_NaN)
  have q: "qTokens (request_alpha NaN) = []"
    by (rule qTokens_empty) (rule request_alpha_no_text)+
  have len: "length ds \<le> 125000"
    by (simp add: ds_def two_flights_def)
  have b: "bm25_norm (request_alpha NaN) ds = [Num 0, Num 0]"
    and c: "cos_norm (request_alpha NaN) ds = [Num 0, Num 0]"
    using normalize_zeros [of "docTokens ds"]
    by (simp_all add: bm25_norm_def cos_norm_def q bm25_empty_query cos_empty_query docTokens_def
        comp_def) (simp_all add: ds_def two_flights_def)
  have h: "hybrid_list (request_alpha NaN) ds = [NaN, NaN]"
    using hybrid_no_query_NaN [OF q an, of ds] by (simp add: ds_def two_flights_def)
  have "map score_hybrid (js_sort (comparator (p_sortBy (request_alpha NaN)))
      (scored_list (request_alpha NaN) ds)) = [NaN, NaN]"
  proof -
    have z: "score_hybrid x = NaN" if "x \<in> set (scored_list (request_alpha NaN) ds)" for x
    proof -
      from that have "score_hybrid x \<in> set (map score_hybrid (scored_list (request_alpha NaN) ds))"
        by simp
      then show ?thesis by (auto simp: map_hybrid_withScores h)
    qed
    have "comparator (p_sortBy (request_alpha NaN)) = cmp_relevance"
      by (rule comparator_relevance) (simp add: request_alpha_def request_plain_def)
    moreover have "js_sort cmp_relevance (scored_list (request_alpha NaN) ds) =
        scored_list (request_alpha NaN) ds"
      by (rule js_sort_ties) (simp add: cmp_relevance_def z js_sub_def js_gt_def)
    ultimately show ?thesis by (simp add: map_hybrid_withScores h)
  qed
  then show ?thesis
    using bm25_no_query [OF q, of ds] cos_no_query [OF q, of ds] bm25N_Inr [OF len, of "request_alpha NaN"]
      cosN_Inr [OF len, of "request_alpha NaN"] sorted_by_Inr [OF len, of "request_alpha NaN"] h
    by (simp add: q an b c hybrid_list_def) (simp add: ds_def two_flights_def)
qed

theorem nan_alpha_fused_is_nan_witness:
  "map score_hybrid
     (projr (sorted_by 125000 (request_alpha NaN) (map addFields two_flights))) \<noteq>
   [Num 0, Num 0]"
  using nan_alpha_fused_is_nan by simp

subsection \<open>Ties under the relevance strategy\<close>

text \<open>On items whose fused scores are numbers the relevance strategy gives a list in
  which no item has a smaller fused score than an item behind it.\<close>

lemma insert_cmp_descending:
  assumes "sorted_wrt (\<lambda>x y. js_le (score_hybrid y) (score_hybrid x)) ys"
    and "\<forall>y\<in>set (x # ys). \<exists>r. score_hybrid y = Num r"
  shows "sorted_wrt (\<lambda>x y. js_le (score_hybrid y) (score_hybrid x)) (insert_cmp cmp_relevance x ys)"
  using assms
proof (induction ys)
  case Nil
  then show ?case by simp
next
  case (Cons y ys)
  from Cons.prems(2) obtain rx ry where rx: "score_hybrid x = Num rx" and ry: "score_hybrid y = Num ry"
    by auto
  show ?case
  proof (cases "js_gt (cmp_relevance x y) (Num 0)")
    case True
    then have lt: "rx < ry"
      by (simp add: cmp_relevance_def rx ry js_gt_def js_sub_def)
    have "sorted_wrt (\<lambda>x y. js_le (score_hybrid y) (score_hybrid x)) (insert_cmp cmp_relevance x ys)"
      using Cons by simp
    moreover have "\<forall>z\<in>set (insert_cmp cmp_relevance x ys). js_le (score_hybrid z) (score_hybrid y)"
      using Cons.prems(1) lt by (auto simp: set_insert_cmp rx ry)
    ultimately show ?thesis using True by simp
  next
    case False
    then have ge: "ry \<le> rx"
      by (simp add: cmp_relevance_def rx ry js_gt_def js_sub_def)
    have "\<forall>z\<in>set ys. js_le (score_hybrid z) (score_hybrid x)"
    proof
      fix z assume z: "z \<in> set ys"
      with Cons.prems(2) obtain rz where rz: "score_hybrid z = Num rz" by auto
      from z Cons.prems(1) have "js_le (score_hybrid z) (score_hybrid y)" by simp
      with ge show "js_le (score_hybrid z) (score_hybrid x)"
        by (auto simp: rx ry rz)
    qed
    with Cons.prems(1) ge False show ?thesis by (auto simp: rx ry)
  qed
qed

lemma js_sort_descending:
  assumes "\<forall>y\<in>set xs. \<exists>r. score_hybrid y = Num r"
  shows "sorted_wrt (\<lambda>x y. js_le (score_hybrid y) (score_hybrid x)) (js_sort cmp_relevance xs)"
  using assms
proof (induction xs)
  case Nil
  show ?case by (simp add: js_sort_def)
next
  case (Cons x xs)
  then have "sorted_wrt (\<lambda>x y. js_le (score_hybrid y) (score_hybrid x)) (js_sort cmp_relevance xs)"
    by simp
  moreover have "\<forall>y\<in>set (x # js_sort cmp_relevance xs). \<exists>r. score_hybrid y = Num r"
    using Cons.prems by (simp add: set_js_sort)
  ultimately show ?case
    unfolding js_sort_Cons by (rule insert_cmp_descending)
qed

text \<open>
  Claim C3. Under the relevance strategy two candidates with equal scores are ordered by
  ascending latest value. The comparator of \<open>/hybrid\<close> compares the fused scores only, so
  candidates with equal scores stay in the order of the store: here both fused scores are
  0 and the latest values come out as 520, 450.
\<close>

theorem relevance_ties_keep_store_order:
  "\<not> isl (sorted_by 125000 request_plain (filtered request_plain two_flights)) \<and>
   map score_hybrid (projr (sorted_by 125000 request_plain (filtered request_plain two_flights))) =
     [Num 0, Num 0] \<and>
   map latestPrice (projr (sorted_by 125000 request_plain (filtered request_plain two_flights))) =
     [Some 520, Some 450]"
proof -
  define ds where "ds = map addFields two_flights"
  have f: "filtered request_plain two_flights = ds"
    by (simp add: filtered_def candidates_def request_plain_def ds_def)
  have len: "length ds \<le> 125000"
    by (simp add: ds_def two_flights_def)
  have an: "alphaNum request_plain = Num 0.5"
    by (simp add: alphaNum_def request_plain_def clamp_alpha_Num)
  have q: "qTokens request_plain = []"
    by (rule qTokens_empty) (rule request_plain_no_text)+
  have h: "hybrid_list request_plain ds = map (\<lambda>d. Num 0) ds"
    using q an by (rule hybrid_no_query_Num)
  have z: "score_hybrid x = Num 0" if "x \<in> set (scored_list request_plain ds)" for x
  proof -
    from that have "score_hybrid x \<in> set (map score_hybrid (scored_list request_plain ds))"
      by simp
    then show ?thesis
      by (auto simp: map_hybrid_withScores h)
  qed
  have "comparator (p_sortBy request_plain) = cmp_relevance"
    by (rule comparator_relevance) (simp add: request_plain_def)
  with sorted_by_Inr [OF len, of request_plain]
  have "sorted_by 125000 request_plain ds = Inr (js_sort cmp_relevance (scored_list request_plain ds))"
    by simp
  also have "js_sort cmp_relevance (scored_list request_plain ds) = scored_list request_plain ds"
    by (rule js_sort_ties) (simp add: cmp_relevance_def z js_sub_def js_gt_def)
  finally have s: "sorted_by 125000 request_plain ds = Inr (scored_list request_plain ds)" .
  have "map score_hybrid (scored_list request_plain ds) = [Num 0, Num 0]"
    by (simp add: map_hybrid_withScores h) (simp add: ds_def two_flights_def)
  moreover have "map latestPrice (scored_list request_plain ds) = [Some 520, Some 450]"
    by (simp add: map_latestPrice_withScores)
      (simp add: ds_def two_flights_def latestPrice_addFields flight_unordered_def
        flight_cheaper_def)
  ultimately show ?thesis
    by (simp add: f s)
qed

theorem relevance_ties_keep_store_order_witness:
  "map latestPrice (projr (sorted_by 125000 request_plain (filtered request_plain two_flights))) \<noteq>
     [Some 450, Some 520]"
  using relevance_ties_keep_store_order by simp

section \<open>The quotients of the raw scores are defined\<close>

text \<open>The raw scores are modelled as reals. The lemmas of this section show that the
  route takes no logarithm of a number that is not positive and no quotient by zero when it
  computes them.\<close>

lemma fold_scan_token:
  "fold scan_token tokens (seen, vocab, df) = (seen', vocab', df') \<Longrightarrow>
   seen' = seen \<union> set tokens \<and>
   get0 df' t = get0 df t + (if t \<in> set tokens - seen then 1 else 0)"
proof (induction tokens arbitrary: seen vocab df)
  case Nil
  then show ?case by simp
next
  case (Cons u tokens)
  show ?case
  proof (cases "u \<in> seen")
    case True
    with Cons.prems have "fold scan_token tokens (seen, vocab_add u vocab, df) = (seen', vocab', df')"
      by simp
    from Cons.IH [OF this] True show ?thesis by auto
  next
    case False
    with Cons.prems have "fold scan_token tokens
        (insert u seen, vocab_add u vocab, df(u \<mapsto> get0 df u + 1)) = (seen', vocab', df')"
      by simp
    from Cons.IH [OF this] False show ?thesis by (auto simp: get0_def)
  qed
qed

lemma get0_scan_doc:
  "get0 (snd (scan_doc tokens (vocab, df))) t = get0 df t + (if t \<in> set tokens then 1 else 0)"
proof -
  obtain seen' vocab' df' where f: "fold scan_token tokens ({}, vocab, df) = (seen', vocab', df')"
    by (metis prod_cases3)
  from fold_scan_token [OF f, of t] show ?thesis
    by (simp add: scan_doc_def f)
qed

lemma get0_fold_scan_doc:
  "get0 (snd (fold scan_doc docs st)) t = get0 (snd st) t + length (filter (\<lambda>d. t \<in> set d) docs)"
proof (induction docs arbitrary: st)
  case Nil
  show ?case by simp
next
  case (Cons d docs)
  obtain vocab df where st: "st = (vocab, df)" by (cases st)
  have "get0 (snd (scan_doc d st)) t = get0 (snd st) t + (if t \<in> set d then 1 else 0)"
    unfolding st using get0_scan_doc by simp
  with Cons.IH [of "scan_doc d st"] show ?case by simp
qed

text \<open>The document frequency of a term is the number of documents that have it.\<close>

lemma df_count: "get0 (df_map docs) t = length (filter (\<lambda>d. t \<in> set d) docs)"
  using get0_fold_scan_doc [of docs "([], Map.empty)" t]
  by (simp add: df_map_def scan_docs_def get0_def)

lemma df_le_N: "get0 (df_map docs) t \<le> corpus_N docs"
proof -
  have "get0 (df_map docs) t \<le> length docs"
    by (simp add: df_count)
  then show ?thesis by (cases docs) (auto simp: corpus_N_def)
qed

text \<open>The logarithm of \<open>idf\<close> is taken of a number above 1, so \<open>idf\<close> is positive.\<close>

lemma idf_pos: "0 < idf docs t"
proof -
  have "0 < (real (corpus_N docs) - real (get0 (df_map docs) t) + 0.5)
      / (real (get0 (df_map docs) t) + 0.5)"
    using df_le_N [of docs t] by (intro divide_pos_pos) simp_all
  then show ?thesis by (simp add: idf_def)
qed

text \<open>A document with a token makes the average length positive: the quotient
  \<open>dl / avgdl\<close> is taken only for such a corpus.\<close>

lemma fold_length_sum: "fold (\<lambda>t s. s + length t) docs n = n + sum_list (map length docs)"
  by (induction docs arbitrary: n) simp_all

lemma avgdl_pos:
  assumes "tokens \<in> set docs" "tokens \<noteq> []"
  shows "0 < avgdl docs"
proof -
  have "length tokens \<le> sum_list (map length docs)"
    using assms(1) by (simp add: member_le_sum_list)
  with assms(2) have "0 < sum_list (map length docs)"
    by (cases tokens) simp_all
  moreover have "0 < corpus_N docs" by (simp add: corpus_N_def)
  ultimately show ?thesis
    by (simp add: avgdl_def fold_length_sum)
qed

lemma bm25_denominator_pos:
  assumes "0 < f" "0 < avgdl docs"
  shows "0 < real f + k1 * (1 - bm25_b + bm25_b * (real dl / avgdl docs))"
proof -
  have "0 \<le> real dl / avgdl docs" using assms(2) by simp
  then have "0 \<le> k1 * (1 - bm25_b + bm25_b * (real dl / avgdl docs))"
    by (simp add: k1_def bm25_b_def)
  with assms(1) show ?thesis by linarith
qed

text \<open>The floor of \<open>norm\<close> keeps the divisor of the cosine away from zero.\<close>

lemma dot_from_self: "s \<le> dot_from s a a"
proof (induction a arbitrary: s)
  case Nil
  show ?case by simp
next
  case (Cons v a)
  have "s \<le> s + v * v" by simp
  also have "\<dots> \<le> dot_from (s + v * v) a a" by (rule Cons.IH)
  finally show ?case by simp
qed

lemma norm_vec_pos: "0 < norm_vec a"
proof -
  have "0 \<le> dot a a"
    unfolding dot_def by (rule dot_from_self)
  then have "0 \<le> sqrt (dot a a)" by simp
  then show ?thesis
    using e12_pos by (simp add: norm_vec_def less_le)
qed


lemma bm25_quotients_defined:
  assumes "tokens \<in> set docs" and "get0 (tf_map tokens) t \<noteq> 0"
  shows "avgdl docs \<noteq> 0"
    and "real (get0 (tf_map tokens) t) +
           k1 * (1 - bm25_b + bm25_b * (real dl / avgdl docs)) \<noteq> 0"
proof -
  from assms(2) have "tokens \<noteq> []"
    by (auto simp: get0_tf_map)
  with assms(1) have a: "0 < avgdl docs" by (rule avgdl_pos)
  then show "avgdl docs \<noteq> 0" by simp
  from assms(2) have "0 < get0 (tf_map tokens) t" by simp
  from bm25_denominator_pos [OF this a, of dl]
  show "real (get0 (tf_map tokens) t) +
      k1 * (1 - bm25_b + bm25_b * (real dl / avgdl docs)) \<noteq> 0"
    by simp
qed

lemma cos_quotient_defined: "norm_vec qv * norm_vec dv \<noteq> 0"
  using norm_vec_pos [of qv] norm_vec_pos [of dv] by simp

end
